theory Spec2Isabelle
  imports Main "HOL-Library.Word"
begin

section \<open>Graph: the adjacency matrix and its two constructors (src/graph.tpp)\<close>

text \<open>
  \<^verbatim>\<open>graph<dim>\<close> holds one field, the matrix \<^verbatim>\<open>m\<close> of \<^verbatim>\<open>dim\<close> rows of \<^verbatim>\<open>dim\<close>
  booleans, value-initialised (\<^verbatim>\<open>m{}\<close>: all false). The template parameter \<^verbatim>\<open>dim\<close> is
  an \<^verbatim>\<open>unsigned int\<close>: the two constructors take it as a 32-bit word, and the matrix
  has \<open>unat dim\<close> rows. \<^verbatim>\<open>operator()(i, j)\<close> returns \<^verbatim>\<open>m[i][j]\<close>.
\<close>

type_synonym u32 = "32 word"

type_synonym graph = "bool list list"

definition empty_matrix :: "nat \<Rightarrow> graph" where
  "empty_matrix dim = replicate dim (replicate dim False)"

definition adj :: "graph \<Rightarrow> nat \<Rightarrow> nat \<Rightarrow> bool" where
  "adj g i j = g ! i ! j"

text \<open>The assignment \<^verbatim>\<open>m[i][j] = b\<close>, for indices the caller has found in range.\<close>

definition set_entry :: "graph \<Rightarrow> nat \<Rightarrow> nat \<Rightarrow> bool \<Rightarrow> graph" where
  "set_entry g i j b = g[i := (g ! i)[j := b]]"

subsection \<open>The constructor from a DIMACS file\<close>

text \<open>
  The constructor reads the file line by line and extracts the first token of each line.
  The model starts after the stream extraction: a line is what \<^verbatim>\<open>iss >> ...\<close> yields.
  \<^item> \<open>CommentLine\<close>: the token is \<^verbatim>\<open>c\<close>;
  \<^item> \<open>ProblemLine format nodes edges\<close>: the token is \<^verbatim>\<open>p\<close>, then the three extracted values;
  \<^item> \<open>EdgeLine (Some (u, v))\<close>: the token is \<^verbatim>\<open>e\<close> and \<^verbatim>\<open>iss >> u >> v\<close> succeeded,
    \<open>EdgeLine None\<close> when it failed;
  \<^item> \<open>OtherLine\<close>: any other first token (also an empty line); the loop goes on.
  A file that cannot be opened is the input \<open>None\<close>.
\<close>

datatype dimacs_line =
    CommentLine
  | ProblemLine string u32 u32
  | EdgeLine "(u32 \<times> u32) option"
  | OtherLine

text \<open>
  The two \<^verbatim>\<open>throw std::runtime_error\<close> of the constructor, and the write through
  \<^verbatim>\<open>m[u][v]\<close> with an index that is not below \<^verbatim>\<open>dim\<close>: the source has no check there, the
  behaviour is undefined, and the model stops with \<open>OutOfBounds\<close>.
\<close>

datatype graph_error = UnableToOpen | DimensionMismatch | OutOfBounds

fun read_lines :: "u32 \<Rightarrow> dimacs_line list \<Rightarrow> graph \<Rightarrow> graph_error + graph" where
  "read_lines dim [] g = Inr g"
| "read_lines dim (CommentLine # ls) g = read_lines dim ls g"
| "read_lines dim (ProblemLine format nodes edges # ls) g =
     (if format \<noteq> ''edge'' \<or> nodes \<noteq> dim then Inl DimensionMismatch
      else read_lines dim ls g)"
| "read_lines dim (EdgeLine None # ls) g = read_lines dim ls g"
| "read_lines dim (EdgeLine (Some (u0, v0)) # ls) g =
     (let u = unat (u0 - 1); v = unat (v0 - 1) in
      if u < unat dim \<and> v < unat dim
      then read_lines dim ls (set_entry (set_entry g u v True) v u True)
      else Inl OutOfBounds)"
| "read_lines dim (OtherLine # ls) g = read_lines dim ls g"

definition graph_from_file :: "u32 \<Rightarrow> dimacs_line list option \<Rightarrow> graph_error + graph" where
  "graph_from_file dim file =
     (case file of
        None \<Rightarrow> Inl UnableToOpen
      | Some ls \<Rightarrow> read_lines dim ls (empty_matrix (unat dim)))"

subsection \<open>The constructor from a density\<close>

text \<open>
  \<^verbatim>\<open>dist(gen)\<close> draws one boolean for each pair \<^verbatim>\<open>i < j\<close>. The draws are an argument of
  the model: \<open>draw i j\<close> is the boolean drawn at the loop indices \<open>i\<close>, \<open>j\<close>. The two
  \<^verbatim>\<open>for\<close> loops run over fixed index ranges.
\<close>

definition random_inner :: "(nat \<Rightarrow> nat \<Rightarrow> bool) \<Rightarrow> nat \<Rightarrow> nat \<Rightarrow> graph \<Rightarrow> graph" where
  "random_inner draw dim i g =
     fold (\<lambda>j g'. set_entry (set_entry g' i j (draw i j)) j i (draw i j)) [Suc i..<dim] g"

definition graph_from_density :: "(nat \<Rightarrow> nat \<Rightarrow> bool) \<Rightarrow> u32 \<Rightarrow> graph" where
  "graph_from_density draw dim =
     fold (\<lambda>i g. set_entry (random_inner draw (unat dim) i g) i i False)
       [0..<unat dim] (empty_matrix (unat dim))"

subsection \<open>Properties of a matrix\<close>

definition square :: "nat \<Rightarrow> graph \<Rightarrow> bool" where
  "square dim g = (length g = dim \<and> list_all (\<lambda>row. length row = dim) g)"

definition symmetric :: "nat \<Rightarrow> graph \<Rightarrow> bool" where
  "symmetric dim g =
     list_all (\<lambda>i. list_all (\<lambda>j. adj g i j = adj g j i) [0..<dim]) [0..<dim]"

definition irreflexive :: "nat \<Rightarrow> graph \<Rightarrow> bool" where
  "irreflexive dim g = list_all (\<lambda>i. \<not> adj g i i) [0..<dim]"

text \<open>The precondition on one line of the file: an edge line names two vertices of \<open>1..dim\<close>.\<close>

fun edge_in_range :: "u32 \<Rightarrow> dimacs_line \<Rightarrow> bool" where
  "edge_in_range dim (EdgeLine (Some (u0, v0))) = (1 \<le> u0 \<and> u0 \<le> dim \<and> 1 \<le> v0 \<and> v0 \<le> dim)"
| "edge_in_range dim l = True"

fun self_loop :: "dimacs_line \<Rightarrow> bool" where
  "self_loop (EdgeLine (Some (u0, v0))) = (u0 = v0)"
| "self_loop l = False"

text \<open>The two assignments \<^verbatim>\<open>m[u][v] = b; m[v][u] = b\<close> that both constructors make.\<close>

definition set_pair :: "graph \<Rightarrow> nat \<Rightarrow> nat \<Rightarrow> bool \<Rightarrow> graph" where
  "set_pair g i j b = set_entry (set_entry g i j b) j i b"

definition well_formed_graph :: "nat \<Rightarrow> graph \<Rightarrow> bool" where
  "well_formed_graph dim g = (square dim g \<and> symmetric dim g \<and> irreflexive dim g)"

section \<open>SearchNode and the messages that carry it (main.cpp, lines 21 to 45)\<close>

text \<open>
  \<^verbatim>\<open>main.cpp\<close> is, here and below, the version of the file that broadcasts the graph and
  packs a node into a buffer (the source file \<^verbatim>\<open>unnamed/part_000\<close>); line numbers are its
  lines. The older version (\<^verbatim>\<open>src/main.cpp\<close>) has the same seed loop at its lines 74 to 104.

  The class \<^verbatim>\<open>solution\<close> is declared in \<^verbatim>\<open>include/solution.h\<close>, which is not among the
  sources. \<^verbatim>\<open>main.cpp\<close> reads and writes three fields of it, \<^verbatim>\<open>color\<close>, \<^verbatim>\<open>tot_colors\<close>
  and \<^verbatim>\<open>next\<close>, copies them to and from a buffer of \<^verbatim>\<open>unsigned int\<close>, and passes the
  address of the static \<^verbatim>\<open>colors_ub\<close> to \<^verbatim>\<open>MPI_Bcast\<close> as one \<^verbatim>\<open>MPI_UNSIGNED\<close>. The fields
  are numbers that the code only copies and compares; they are natural numbers here.
\<close>

record solution =
  color :: "nat list"
  tot_colors :: nat
  "next" :: nat

text \<open>
  \<^verbatim>\<open>send_solution\<close> allocates \<^verbatim>\<open>buffer(solution::dim + 2)\<close> (zeros), copies the whole
  colour vector to its start, then stores \<^verbatim>\<open>tot_colors\<close> at index \<^verbatim>\<open>dim\<close> and \<^verbatim>\<open>next\<close> at
  index \<^verbatim>\<open>dim + 1\<close>. A colour vector longer than the buffer overruns it: \<open>None\<close>. The
  result is the buffer handed to \<^verbatim>\<open>MPI_Send\<close>; destination and tag pass through.
\<close>

definition send_solution :: "nat \<Rightarrow> solution \<Rightarrow> nat list option" where
  "send_solution dim sol =
     (if length (color sol) \<le> dim + 2
      then Some ((color sol @ replicate (dim + 2 - length (color sol)) 0)
                   [dim := tot_colors sol, dim + 1 := next sol])
      else None)"

text \<open>
  \<^verbatim>\<open>receive_solution\<close> allocates the same buffer, lets \<^verbatim>\<open>MPI_Recv\<close> fill it with at most
  \<^verbatim>\<open>dim + 2\<close> values (a longer message is an MPI truncation error, fatal under the default
  error handler: \<open>None\<close>; a shorter one leaves the remaining zeros), and unpacks it.
\<close>

definition receive_solution :: "nat \<Rightarrow> nat list \<Rightarrow> solution option" where
  "receive_solution dim msg =
     (if length msg \<le> dim + 2
      then (let buffer = msg @ replicate (dim + 2 - length msg) 0 in
            Some \<lparr>color = take dim buffer, tot_colors = buffer ! dim, next = buffer ! (dim + 1)\<rparr>)
      else None)"

text \<open>
  The member functions and statics of \<^verbatim>\<open>solution\<close> that \<^verbatim>\<open>main\<close> calls are parameters of
  the engine below: the default constructor \<^verbatim>\<open>solution{}\<close>, the value of the static
  \<^verbatim>\<open>colors_ub\<close> before anyone assigns it, \<^verbatim>\<open>is_final()\<close>, and \<^verbatim>\<open>get_next()\<close>, which reads
  the static \<^verbatim>\<open>colors_ub\<close> and so takes it as its first argument.
\<close>

record solution_class =
  default_solution :: solution
  initial_ub :: nat
  is_final :: "solution \<Rightarrow> bool"
  get_next :: "nat \<Rightarrow> solution \<Rightarrow> solution list"

text \<open>
  Modelled from the spec: the class \<^verbatim>\<open>solution\<close> of \<^verbatim>\<open>include/solution.h\<close> (missing), after
  sections 3 and 4.2. A node is constructed empty (all zeros, \<open>tot_colors = 0\<close>,
  \<open>next = 0\<close>); the bound starts at \<open>n + 1\<close>; a node is final iff \<open>next = n\<close>. \<open>expand\<close>:
  with \<open>k = tot_colors\<close> and the forbidden set \<open>F = {color[j] : j < next \<and> E(next, j)}\<close>,
  one child for each colour of \<open>[1, k] \<setminus> F\<close> in ascending order (\<open>color[next] = c\<close>,
  \<open>tot_colors\<close> unchanged, \<open>next\<close> incremented), then, if \<open>k + 1 \<le> UB - 1\<close>, one child
  with the fresh colour \<open>k + 1\<close> and \<open>tot_colors = k + 1\<close>.
\<close>

text \<open>Modelled from the spec: the forbidden set \<open>F\<close> of \<open>expand\<close> (section 4.2, step 1).\<close>

definition forbidden :: "graph \<Rightarrow> solution \<Rightarrow> nat list" where
  "forbidden g u = map (\<lambda>j. color u ! j) (filter (\<lambda>j. adj g (next u) j) [0..<next u])"

text \<open>
  Modelled from the spec: the child of \<open>expand\<close> with \<open>color[next] = c\<close>, \<open>tot_colors = k\<close>
  and \<open>next\<close> incremented (section 4.2, steps 2 and 3).
\<close>

definition child :: "solution \<Rightarrow> nat \<Rightarrow> nat \<Rightarrow> solution" where
  "child u c k = \<lparr>color = (color u)[next u := c], tot_colors = k, next = next u + 1\<rparr>"

text \<open>
  Modelled from the spec: \<open>expand\<close>, the \<^verbatim>\<open>get_next()\<close> of the class (section 4.2); \<open>ub\<close> is
  the bound it reads.
\<close>

definition expand :: "graph \<Rightarrow> nat \<Rightarrow> solution \<Rightarrow> solution list" where
  "expand g ub u =
     (let k = tot_colors u in
      map (\<lambda>c. child u c k) (filter (\<lambda>c. c \<notin> set (forbidden g u)) [1..<k + 1])
      @ (if k + 1 \<le> ub - 1 then [child u (k + 1) (k + 1)] else []))"

text \<open>Modelled from the spec: the node as constructed, \<^verbatim>\<open>solution{}\<close> (section 3, lifecycle).\<close>

definition empty_solution :: "nat \<Rightarrow> solution" where
  "empty_solution n = \<lparr>color = replicate n 0, tot_colors = 0, next = 0\<rparr>"

text \<open>
  Modelled from the spec: the class \<^verbatim>\<open>solution\<close> over the graph \<open>g\<close> of \<open>n\<close> vertices, with
  the bound initialised to \<open>n + 1\<close> and \<^verbatim>\<open>is_final()\<close> as \<open>next = n\<close> (sections 3 and 4.2).
\<close>

definition spec_solution :: "graph \<Rightarrow> nat \<Rightarrow> solution_class" where
  "spec_solution g n =
     \<lparr>default_solution = empty_solution n,
      initial_ub = n + 1,
      is_final = (\<lambda>u. next u = n),
      get_next = expand g\<rparr>"

section \<open>The engine (main.cpp)\<close>

subsection \<open>Tags, calls and output\<close>

definition INITIAL_NODE :: nat where "INITIAL_NODE = 1"
definition SOLUTION_FROM_WORKER :: nat where "SOLUTION_FROM_WORKER = 2"
definition RETURN :: nat where "RETURN = 3"

text \<open>
  One call \<^verbatim>\<open>send_solution(sol, dest, tag, MPI_COMM_WORLD)\<close>, and what one
  \<^verbatim>\<open>receive_solution(sol, MPI_ANY_SOURCE, MPI_ANY_TAG, ...)\<close> returns: the node and, from
  \<^verbatim>\<open>status\<close>, the tag and the rank of the sender. \<open>peer\<close> is the destination of a call
  and the source of a received message.
\<close>

record envelope =
  body :: solution
  peer :: nat
  tag :: nat

text \<open>The lines \<^verbatim>\<open>main\<close> and the two listeners write to \<^verbatim>\<open>std::cout\<close>.\<close>

datatype printed =
    PrintSolution solution
  | OptimalSolution solution
  | NoParallelismUsed
  | QueueReport nat nat "64 word"
  | SentStartingNodes
  | DidNotReceive nat
  | ReceivedNewUb nat nat
  | WorkerSentSolution nat solution
  | FinalOptimalSolution solution
  | Completed nat

text \<open>
  What every process holds: the static \<^verbatim>\<open>solution::colors_ub\<close>, the local
  \<^verbatim>\<open>best_so_far\<close> of \<^verbatim>\<open>main\<close>, what it has printed and the calls to \<^verbatim>\<open>send_solution\<close> it
  has made, in order.
\<close>

record process =
  colors_ub :: nat
  best_so_far :: solution
  stdout :: "printed list"
  sends :: "envelope list"

subsection \<open>Rank 0: the breadth-first seed and the dispatch (lines 116 to 212)\<close>

record coordinator = process +
  initial_q :: "solution list"

datatype flow = Continue | Break

text \<open>
  The body of the \<^verbatim>\<open>while\<close> loop of lines 134 to 164, after \<^verbatim>\<open>curr\<close> has been popped
  from the front of the queue. \<^verbatim>\<open>initial_q.push\<close> appends at the back of a \<^verbatim>\<open>std::queue\<close>.
  \<open>sizeP\<close> is the \<^verbatim>\<open>size\<close> of the source, the number of processes, and \<open>curr_node\<close>
  its \<^verbatim>\<open>curr\<close>.
\<close>

definition seed_iteration ::
  "solution_class \<Rightarrow> nat \<Rightarrow> solution \<Rightarrow> coordinator \<Rightarrow> flow \<times> coordinator" where
  "seed_iteration cls sizeP curr_node s =
     (if \<not> is_final cls curr_node then
        if tot_colors curr_node \<ge> colors_ub s then (Continue, s)
        else (let tmp = get_next cls (colors_ub s) curr_node in
              if length (initial_q s) + length tmp \<le> sizeP - 1
              then (Continue, s\<lparr>initial_q := initial_q s @ tmp\<rparr>)
              else (Break, s\<lparr>initial_q := initial_q s @ [curr_node]\<rparr>))
      else if tot_colors curr_node < colors_ub s
      then (Continue, s\<lparr>colors_ub := tot_colors curr_node, best_so_far := curr_node,
                        stdout := stdout s @ [PrintSolution curr_node]\<rparr>)
      else (Continue, s))"

text \<open>The loop itself; \<open>None\<close> when it runs forever.\<close>

partial_function (option) seed_loop ::
  "solution_class \<Rightarrow> nat \<Rightarrow> coordinator \<Rightarrow> coordinator option" where
  "seed_loop cls sizeP s =
     (case initial_q s of
        [] \<Rightarrow> Some s
      | curr_node # rest \<Rightarrow>
          (case seed_iteration cls sizeP curr_node (s\<lparr>initial_q := rest\<rparr>) of
             (Break, s') \<Rightarrow> Some s'
           | (Continue, s') \<Rightarrow> seed_loop cls sizeP s'))"

declare seed_loop.simps [code]

text \<open>
  Lines 173 to 200: the three numbers printed, then the queue is sent front first to the
  ranks \<open>1, 2, ...\<close> with the tag \<^verbatim>\<open>INITIAL_NODE\<close>, then every remaining rank below
  \<^verbatim>\<open>size\<close> gets a default-constructed node with the tag \<open>0\<close>. The third number,
  \<^verbatim>\<open>(size - 1) - initial_q.size()\<close>, is computed in \<^verbatim>\<open>size_t\<close> (64 bits here) and wraps
  when the queue is longer than \<^verbatim>\<open>size - 1\<close>, which the seed loop allows only with
  \<^verbatim>\<open>size = 1\<close>.
\<close>

fun dispatch_nodes :: "solution list \<Rightarrow> nat \<Rightarrow> envelope list" where
  "dispatch_nodes [] i = []"
| "dispatch_nodes (u # rest) i =
     \<lparr>body = u, peer = i, tag = INITIAL_NODE\<rparr> # dispatch_nodes rest (i + 1)"

definition dispatch_idle :: "solution \<Rightarrow> nat \<Rightarrow> nat \<Rightarrow> envelope list" where
  "dispatch_idle dummy_solution i sizeP =
     map (\<lambda>j. \<lparr>body = dummy_solution, peer = j, tag = 0\<rparr>) [i..<sizeP]"

definition dispatch :: "solution_class \<Rightarrow> nat \<Rightarrow> coordinator \<Rightarrow> coordinator" where
  "dispatch cls sizeP s =
     s\<lparr>initial_q := [],
       stdout := stdout s
         @ [QueueReport (length (initial_q s)) (colors_ub s)
              ((of_nat sizeP - 1) - of_nat (length (initial_q s))),
            SentStartingNodes],
       sends := sends s
         @ dispatch_nodes (initial_q s) 1
         @ dispatch_idle (default_solution cls) (1 + length (initial_q s)) sizeP\<rparr>"

text \<open>
  Rank 0 up to the creation of its listener thread. \<^verbatim>\<open>MPI_Abort(MPI_COMM_WORLD, 69)\<close> ends
  every process of the group: \<open>Aborted 69 s\<close>, with the state \<open>s\<close> the process had then.
  The other abort of \<^verbatim>\<open>main\<close> is \<^verbatim>\<open>MPI_Abort(MPI_COMM_WORLD, 1)\<close>, when the MPI library
  gives less than \<^verbatim>\<open>MPI_THREAD_MULTIPLE\<close>; a run that ends through \<^verbatim>\<open>return 0\<close> exits with 0.
\<close>

datatype seeded = Aborted nat coordinator | Dispatched coordinator

definition THREAD_SUPPORT_ABORT :: nat where "THREAD_SUPPORT_ABORT = 1"
definition NORMAL_EXIT :: nat where "NORMAL_EXIT = 0"

definition after_seed :: "solution_class \<Rightarrow> nat \<Rightarrow> coordinator \<Rightarrow> seeded" where
  "after_seed cls sizeP s =
     (if initial_q s = []
      then Aborted 69 (s\<lparr>stdout := stdout s @ [OptimalSolution (best_so_far s), NoParallelismUsed]\<rparr>)
      else Dispatched (dispatch cls sizeP s))"

definition seed_start :: "solution_class \<Rightarrow> coordinator" where
  "seed_start cls =
     \<lparr>colors_ub = initial_ub cls, best_so_far = default_solution cls, stdout = [], sends = [],
      initial_q = [default_solution cls]\<rparr>"

definition rank0_main :: "solution_class \<Rightarrow> nat \<Rightarrow> seeded option" where
  "rank0_main cls sizeP = map_option (after_seed cls sizeP) (seed_loop cls sizeP (seed_start cls))"

subsection \<open>A worker: the depth-first search and the listener (lines 214 to 322)\<close>

record worker = process +
  dfs_stack :: "solution list"
  listening :: bool

text \<open>
  One iteration of \<^verbatim>\<open>listen_for_ub_updates_from_root\<close> on the value \<^verbatim>\<open>MPI_Bcast\<close> delivered,
  and the thread on the values delivered in order: it handles them until the one that
  equals \<^verbatim>\<open>RETURN\<close>, and \<open>listening\<close> is false once it has returned.
\<close>

definition on_broadcast :: "nat \<Rightarrow> nat \<Rightarrow> worker \<Rightarrow> worker" where
  "on_broadcast rank new_ub w =
     (if new_ub = RETURN then w\<lparr>listening := False\<rparr>
      else if new_ub < colors_ub w
      then w\<lparr>colors_ub := new_ub, stdout := stdout w @ [ReceivedNewUb rank new_ub]\<rparr>
      else w)"

fun listen_for_ub_updates_from_root :: "nat \<Rightarrow> nat list \<Rightarrow> worker \<Rightarrow> worker" where
  "listen_for_ub_updates_from_root rank [] w = w"
| "listen_for_ub_updates_from_root rank (new_ub # later) w =
     (if listening w
      then listen_for_ub_updates_from_root rank later (on_broadcast rank new_ub w)
      else w)"

text \<open>
  The body of the \<^verbatim>\<open>while\<close> loop of lines 245 to 272 after \<^verbatim>\<open>curr\<close> has been popped. The
  \<^verbatim>\<open>std::stack\<close> is a list with its top first; the children are pushed last to first, so
  the first child ends on top. (The counter \<^verbatim>\<open>tot_solutions_generated\<close> is only read by
  code that is commented out.)
\<close>

definition dfs_iteration :: "solution_class \<Rightarrow> solution \<Rightarrow> worker \<Rightarrow> worker" where
  "dfs_iteration cls curr_node w =
     (if \<not> is_final cls curr_node then
        if tot_colors curr_node \<ge> colors_ub w then w
        else w\<lparr>dfs_stack := get_next cls (colors_ub w) curr_node @ dfs_stack w\<rparr>
      else if tot_colors curr_node < colors_ub w
      then w\<lparr>colors_ub := tot_colors curr_node, best_so_far := curr_node,
             sends := sends w @ [\<lparr>body = curr_node, peer = 0, tag = SOLUTION_FROM_WORKER\<rparr>]\<rparr>
      else w)"

text \<open>
  The loop, seen one whole iteration at a time. The listener thread runs beside it and
  assigns \<^verbatim>\<open>colors_ub\<close>: \<open>feed\<close> lists, for each iteration of the loop in turn, the
  values the listener handles just before that iteration (none once the list is used up).
  \<open>None\<close> when the loop runs forever. The two threads are taken access by access in the
  last subsection of this section.
\<close>

partial_function (option) dfs_loop ::
  "solution_class \<Rightarrow> nat \<Rightarrow> nat list list \<Rightarrow> worker \<Rightarrow> worker option" where
  "dfs_loop cls rank feed w =
     (case dfs_stack w of
        [] \<Rightarrow> Some w
      | curr_node # rest \<Rightarrow>
          dfs_loop cls rank (tl feed)
            (dfs_iteration cls curr_node
               ((listen_for_ub_updates_from_root rank (case feed of [] \<Rightarrow> [] | now # _ \<Rightarrow> now) w)
                  \<lparr>dfs_stack := rest\<rparr>)))"

declare dfs_loop.simps [code]

text \<open>
  A worker from the receipt of its first message \<open>init\<close> to its call of \<^verbatim>\<open>MPI_Barrier\<close>:
  any tag but \<^verbatim>\<open>INITIAL_NODE\<close> skips the search; then the worker sends a default-constructed
  node with the tag \<^verbatim>\<open>RETURN\<close>.
\<close>

definition worker_start :: "solution_class \<Rightarrow> worker" where
  "worker_start cls =
     \<lparr>colors_ub = initial_ub cls, best_so_far = default_solution cls, stdout = [], sends = [],
      dfs_stack = [], listening = True\<rparr>"

definition worker_main ::
  "solution_class \<Rightarrow> nat \<Rightarrow> envelope \<Rightarrow> nat list list \<Rightarrow> worker option" where
  "worker_main cls rank init feed =
     (case (if tag init \<noteq> INITIAL_NODE
            then Some (listen_for_ub_updates_from_root rank (concat feed)
                         ((worker_start cls)\<lparr>stdout := [DidNotReceive rank]\<rparr>))
            else dfs_loop cls rank feed ((worker_start cls)\<lparr>dfs_stack := [body init]\<rparr>)) of
        None \<Rightarrow> None
      | Some w \<Rightarrow>
          Some (w\<lparr>sends := sends w
                    @ [\<lparr>body = default_solution cls, peer = 0, tag = RETURN\<rparr>]\<rparr>))"

subsection \<open>Rank 0: the listener for the workers (lines 324 to 358)\<close>

record aggregator = process +
  worker_done :: nat
  best :: solution
  broadcasts :: "nat list"

text \<open>One iteration of the loop on the message \<^verbatim>\<open>receive_solution\<close> returned.\<close>

definition on_message :: "envelope \<Rightarrow> aggregator \<Rightarrow> aggregator" where
  "on_message msg a =
     (let a1 = (if tag msg = RETURN then a\<lparr>worker_done := worker_done a + 1\<rparr> else a) in
      if tag msg = SOLUTION_FROM_WORKER \<and> tot_colors (body msg) < colors_ub a1
      then a1\<lparr>colors_ub := tot_colors (body msg), best := body msg,
              stdout := stdout a1 @ [WorkerSentSolution (peer msg) (body msg)],
              broadcasts := broadcasts a1 @ [tot_colors (body msg)]\<rparr>
      else a1)"

text \<open>After the loop: the broadcast of \<^verbatim>\<open>RETURN\<close> and the print of \<^verbatim>\<open>best\<close>.\<close>

definition finish :: "aggregator \<Rightarrow> aggregator" where
  "finish a =
     a\<lparr>broadcasts := broadcasts a @ [RETURN],
       stdout := stdout a @ [FinalOptimalSolution (best a)]\<rparr>"

text \<open>
  The thread on the messages that arrive, in their order of arrival. It returns its last
  state and the messages it has not received; \<open>None\<close> when it waits in \<^verbatim>\<open>MPI_Recv\<close> for
  a message that never comes.
\<close>

fun listen_for_ub_updates_from_workers ::
  "nat \<Rightarrow> envelope list \<Rightarrow> aggregator \<Rightarrow> (aggregator \<times> envelope list) option" where
  "listen_for_ub_updates_from_workers sizeP [] a =
     (if worker_done a < sizeP - 1 then None else Some (finish a, []))"
| "listen_for_ub_updates_from_workers sizeP (msg # later) a =
     (if worker_done a < sizeP - 1
      then listen_for_ub_updates_from_workers sizeP later (on_message msg a)
      else Some (finish a, msg # later))"

definition aggregator_start :: "solution_class \<Rightarrow> nat \<Rightarrow> aggregator" where
  "aggregator_start cls ub =
     \<lparr>colors_ub = ub, best_so_far = default_solution cls, stdout = [], sends = [],
      worker_done = 0, best = default_solution cls, broadcasts = []\<rparr>"

subsection \<open>The accesses of a worker's two threads to the bound\<close>

text \<open>
  On a worker both threads assign \<^verbatim>\<open>solution::colors_ub\<close>: \<^verbatim>\<open>main\<close> at line 266, after
  the test of line 262, and the listener at line 315, after the test of line 314. Each
  test reads the variable and each assignment writes it; nothing in the source makes a
  test and its assignment one step, so the other thread can run between the two. A thread
  that has passed its test holds the value it is about to store. \<open>finals\<close> lists the
  \<^verbatim>\<open>tot_colors\<close> of the final nodes \<^verbatim>\<open>main\<close> pops, \<open>delivered\<close> the values \<^verbatim>\<open>MPI_Bcast\<close>
  hands to the listener, and \<open>history\<close> every value the variable has held, oldest first.
\<close>

datatype thread = MainThread | ListenerThread

record bound_cell =
  shared_ub :: nat
  main_holds :: "nat option"
  listener_holds :: "nat option"
  finals :: "nat list"
  delivered :: "nat list"
  listener_running :: bool
  history :: "nat list"

definition store :: "nat \<Rightarrow> bound_cell \<Rightarrow> bound_cell" where
  "store v c = c\<lparr>shared_ub := v, history := history c @ [v]\<rparr>"

fun thread_step :: "thread \<Rightarrow> bound_cell \<Rightarrow> bound_cell" where
  "thread_step MainThread c =
     (case main_holds c of
        Some v \<Rightarrow> store v (c\<lparr>main_holds := None\<rparr>)
      | None \<Rightarrow>
          (case finals c of
             [] \<Rightarrow> c
           | t # ts \<Rightarrow>
               c\<lparr>finals := ts, main_holds := (if t < shared_ub c then Some t else None)\<rparr>))"
| "thread_step ListenerThread c =
     (case listener_holds c of
        Some v \<Rightarrow> store v (c\<lparr>listener_holds := None\<rparr>)
      | None \<Rightarrow>
          (if \<not> listener_running c then c
           else (case delivered c of
                   [] \<Rightarrow> c
                 | new_ub # later \<Rightarrow>
                     if new_ub = RETURN then c\<lparr>delivered := later, listener_running := False\<rparr>
                     else c\<lparr>delivered := later,
                            listener_holds :=
                              (if new_ub < shared_ub c then Some new_ub else None)\<rparr>)))"

definition interleave :: "thread list \<Rightarrow> bound_cell \<Rightarrow> bound_cell" where
  "interleave schedule c = fold thread_step schedule c"

definition cell_start :: "nat \<Rightarrow> nat list \<Rightarrow> nat list \<Rightarrow> bound_cell" where
  "cell_start ub tots values =
     \<lparr>shared_ub = ub, main_holds = None, listener_holds = None, finals = tots,
      delivered = values, listener_running = True, history = [ub]\<rparr>"

text \<open>The bound never went up: each value of the history is below the one before it.\<close>

definition strictly_decreasing :: "nat list \<Rightarrow> bool" where
  "strictly_decreasing xs = sorted_wrt (\<lambda>a b. b < a) xs"

subsection \<open>A run after the dispatch, access by access\<close>

text \<open>
  After the dispatch every process runs two threads, and the processes run side by side.
  The model below moves one thread at a time, and a step holds at most one access to what
  another thread can see: the static \<^verbatim>\<open>colors_ub\<close> of the process, a message, a value
  broadcast. What the source does between two such accesses on variables of the thread
  alone (the pop, \<^verbatim>\<open>is_final()\<close>, the pushes, the assignment of \<^verbatim>\<open>best_so_far\<close>)
  belongs to the step before or after.

  The main thread of a worker is at one of these places of \<^verbatim>\<open>main\<close>:
  \<^item> \<open>AwaitInitial\<close>: in \<^verbatim>\<open>receive_solution\<close>, line 226;
  \<^item> \<open>LoopHead\<close>: at the test of the \<^verbatim>\<open>while\<close> loop, line 245;
  \<^item> \<open>PruneTest curr\<close>: before the comparison of line 254, with the node popped at
    line 248, which is not final;
  \<^item> \<open>GetNext curr\<close>: before the call \<^verbatim>\<open>curr.get_next()\<close> of line 257, which reads
    \<^verbatim>\<open>colors_ub\<close>;
  \<^item> \<open>ImproveTest curr\<close>: before the comparison of line 262, with a final node;
  \<^item> \<open>StoreBound curr\<close>: before the assignment of line 266;
  \<^item> \<open>SendBest\<close>: before \<^verbatim>\<open>send_solution(best_so_far, 0, SOLUTION_FROM_WORKER, ...)\<close>,
    line 270;
  \<^item> \<open>SendReturn\<close>: before \<^verbatim>\<open>send_solution(dummy, 0, RETURN, ...)\<close>, line 287;
  \<^item> \<open>AtBarrier\<close>: in \<^verbatim>\<open>MPI_Barrier\<close>, line 290.

  Its listener, \<^verbatim>\<open>listen_for_ub_updates_from_root\<close>, is \<open>NotCreated\<close> before the
  \<^verbatim>\<open>pthread_create\<close> of line 230, and then \<open>InBcast\<close> (in \<^verbatim>\<open>MPI_Bcast\<close>, line 310),
  at \<open>BoundTest new_ub\<close> (before the comparison of line 314), at \<open>BoundStore new_ub\<close>
  (before the assignment of line 315), at \<open>BoundPrint\<close> (before the print of line 316,
  which reads \<^verbatim>\<open>colors_ub\<close> again), or \<open>ListenerReturned\<close>.
\<close>

datatype main_line =
    AwaitInitial
  | LoopHead
  | PruneTest solution
  | GetNext solution
  | ImproveTest solution
  | StoreBound solution
  | SendBest
  | SendReturn
  | AtBarrier

datatype listener_line =
    NotCreated
  | InBcast
  | BoundTest nat
  | BoundStore nat
  | BoundPrint
  | ListenerReturned

text \<open>
  A worker with its two threads. \<open>bcasts_seen\<close> counts the calls of \<^verbatim>\<open>MPI_Bcast\<close> that
  have returned in its listener, and \<open>listening\<close> is false once the listener has returned.
\<close>

record worker_threads = worker +
  main_at :: main_line
  listener_at :: listener_line
  bcasts_seen :: nat

text \<open>
  One step of the main thread of the worker \<open>rank\<close>. \<open>mail\<close> lists the calls of
  \<^verbatim>\<open>send_solution\<close> that rank 0 made in the dispatch, in order: \<^verbatim>\<open>MPI_Recv\<close> from rank 0
  returns the first of them addressed to this rank, and the thread stays in
  \<open>AwaitInitial\<close> (it has no step: \<open>None\<close>) when there is none. The listener is created
  right after. \<^verbatim>\<open>send_solution\<close> is taken to return once the message is handed to MPI
  (\<^verbatim>\<open>MPI_Send\<close> of a buffer of \<open>dim + 2\<close> numbers), and the thread has no step in
  \<open>AtBarrier\<close>.
\<close>

definition main_step ::
  "solution_class \<Rightarrow> nat \<Rightarrow> envelope list \<Rightarrow> worker_threads \<Rightarrow> worker_threads option" where
  "main_step cls rank mail w =
     (case main_at w of
        AwaitInitial \<Rightarrow>
          (case find (\<lambda>e. peer e = rank) mail of
             None \<Rightarrow> None
           | Some init \<Rightarrow>
               Some (if tag init \<noteq> INITIAL_NODE
                     then w\<lparr>stdout := stdout w @ [DidNotReceive rank],
                            main_at := SendReturn, listener_at := InBcast\<rparr>
                     else w\<lparr>dfs_stack := [body init],
                            main_at := LoopHead, listener_at := InBcast\<rparr>))
      | LoopHead \<Rightarrow>
          (case dfs_stack w of
             [] \<Rightarrow> Some (w\<lparr>main_at := SendReturn\<rparr>)
           | curr_node # rest \<Rightarrow>
               Some (w\<lparr>dfs_stack := rest,
                       main_at := (if \<not> is_final cls curr_node then PruneTest curr_node
                                   else ImproveTest curr_node)\<rparr>))
      | PruneTest curr_node \<Rightarrow>
          Some (w\<lparr>main_at := (if tot_colors curr_node \<ge> colors_ub w then LoopHead
                               else GetNext curr_node)\<rparr>)
      | GetNext curr_node \<Rightarrow>
          Some (w\<lparr>dfs_stack := get_next cls (colors_ub w) curr_node @ dfs_stack w,
                  main_at := LoopHead\<rparr>)
      | ImproveTest curr_node \<Rightarrow>
          Some (w\<lparr>main_at := (if tot_colors curr_node < colors_ub w then StoreBound curr_node
                               else LoopHead)\<rparr>)
      | StoreBound curr_node \<Rightarrow>
          Some (w\<lparr>colors_ub := tot_colors curr_node, best_so_far := curr_node,
                  main_at := SendBest\<rparr>)
      | SendBest \<Rightarrow>
          Some (w\<lparr>sends := sends w
                    @ [\<lparr>body = best_so_far w, peer = 0, tag = SOLUTION_FROM_WORKER\<rparr>],
                  main_at := LoopHead\<rparr>)
      | SendReturn \<Rightarrow>
          Some (w\<lparr>sends := sends w @ [\<lparr>body = default_solution cls, peer = 0, tag = RETURN\<rparr>],
                  main_at := AtBarrier\<rparr>)
      | AtBarrier \<Rightarrow> None)"

text \<open>
  One step of the listener of the worker \<open>rank\<close>. \<open>bcasts\<close> lists the values rank 0 has
  broadcast so far, in order: the \<open>k\<close>-th call of \<^verbatim>\<open>MPI_Bcast\<close> in this thread returns
  the \<open>k\<close>-th of them, and waits (\<open>None\<close>) while there is none.
\<close>

definition listener_step :: "nat \<Rightarrow> nat list \<Rightarrow> worker_threads \<Rightarrow> worker_threads option" where
  "listener_step rank bcasts w =
     (case listener_at w of
        NotCreated \<Rightarrow> None
      | InBcast \<Rightarrow>
          (if bcasts_seen w < length bcasts
           then Some (w\<lparr>bcasts_seen := bcasts_seen w + 1,
                        listening := (bcasts ! bcasts_seen w \<noteq> RETURN),
                        listener_at := (if bcasts ! bcasts_seen w = RETURN then ListenerReturned
                                        else BoundTest (bcasts ! bcasts_seen w))\<rparr>)
           else None)
      | BoundTest new_ub \<Rightarrow>
          Some (w\<lparr>listener_at := (if new_ub < colors_ub w then BoundStore new_ub else InBcast)\<rparr>)
      | BoundStore new_ub \<Rightarrow> Some (w\<lparr>colors_ub := new_ub, listener_at := BoundPrint\<rparr>)
      | BoundPrint \<Rightarrow>
          Some (w\<lparr>stdout := stdout w @ [ReceivedNewUb rank (colors_ub w)],
                  listener_at := InBcast\<rparr>)
      | ListenerReturned \<Rightarrow> None)"

text \<open>
  \<^verbatim>\<open>status.MPI_SOURCE\<close> of a message received by rank 0 is the rank of the worker that
  sent it.
\<close>

definition stamped :: "nat \<Rightarrow> envelope \<Rightarrow> envelope" where
  "stamped rank e = e\<lparr>peer := rank\<rparr>"

text \<open>
  The processes after the dispatch: the listener of rank 0 (its main thread waits in
  \<^verbatim>\<open>MPI_Barrier\<close>, line 207, and touches nothing), whether that listener has returned,
  how many messages of each worker it has received, and the workers. The messages a worker
  has sent are its \<open>sends\<close>; rank 0 receives those of one worker in the order sent
  (\<open>received t rank\<close> of them so far), and those of different workers in any order.
\<close>

record system =
  rank0 :: aggregator
  rank0_returned :: bool
  received :: "nat \<Rightarrow> nat"
  workers :: "nat \<Rightarrow> worker_threads"

text \<open>
  One step of the listener of rank 0, \<^verbatim>\<open>listen_for_ub_updates_from_workers\<close>: while
  \<^verbatim>\<open>worker_done < size - 1\<close>, one iteration of its loop on the oldest message of the
  worker \<open>src\<close> that it has not received (\<^verbatim>\<open>MPI_Recv\<close> with \<^verbatim>\<open>MPI_ANY_SOURCE\<close> returns
  a message of any sender that has one waiting; the thread has no step for \<open>src\<close> when
  that worker has none); and once the loop has ended, the broadcast of \<^verbatim>\<open>RETURN\<close> and the
  print, whatever \<open>src\<close> is. The broadcast of an improved bound is part of the iteration:
  between the receipt and the broadcast the thread touches nothing that another thread can
  see, since nothing else runs on rank 0 and no worker reads the \<^verbatim>\<open>colors_ub\<close> of rank 0.
  \<^verbatim>\<open>MPI_Bcast\<close> at the root is taken to return without waiting for the other ranks, also
  when the listener of a worker has returned before (at a bound equal to \<^verbatim>\<open>RETURN\<close>) and
  joins no later broadcast.
\<close>

definition root_step :: "nat \<Rightarrow> nat \<Rightarrow> system \<Rightarrow> system option" where
  "root_step sizeP src t =
     (if rank0_returned t then None
      else if worker_done (rank0 t) < sizeP - 1
      then (if 1 \<le> src \<and> src < sizeP \<and> received t src < length (sends (workers t src))
            then Some (t\<lparr>rank0 := on_message (stamped src (sends (workers t src) ! received t src))
                                   (rank0 t),
                         received := (received t)(src := received t src + 1)\<rparr>)
            else None)
      else Some (t\<lparr>rank0 := finish (rank0 t), rank0_returned := True\<rparr>))"

text \<open>
  A schedule names, step by step, the thread that moves: the listener of rank 0 receiving
  from \<open>src\<close>, the main thread of a worker, or the listener of a worker. Every
  interleaving of the threads is a schedule; a schedule that names a thread where it cannot
  move is no run (\<open>None\<close>).
\<close>

datatype actor = RootListener nat | WorkerMain nat | WorkerListener nat

fun step :: "solution_class \<Rightarrow> nat \<Rightarrow> envelope list \<Rightarrow> actor \<Rightarrow> system \<Rightarrow> system option" where
  "step cls sizeP mail (RootListener src) t = root_step sizeP src t"
| "step cls sizeP mail (WorkerMain rank) t =
     (if 1 \<le> rank \<and> rank < sizeP
      then map_option (\<lambda>w. t\<lparr>workers := (workers t)(rank := w)\<rparr>)
             (main_step cls rank mail (workers t rank))
      else None)"
| "step cls sizeP mail (WorkerListener rank) t =
     (if 1 \<le> rank \<and> rank < sizeP
      then map_option (\<lambda>w. t\<lparr>workers := (workers t)(rank := w)\<rparr>)
             (listener_step rank (broadcasts (rank0 t)) (workers t rank))
      else None)"

fun run_schedule ::
  "solution_class \<Rightarrow> nat \<Rightarrow> envelope list \<Rightarrow> actor list \<Rightarrow> system \<Rightarrow> system option" where
  "run_schedule cls sizeP mail [] t = Some t"
| "run_schedule cls sizeP mail (a # schedule) t =
     (case step cls sizeP mail a t of
        None \<Rightarrow> None
      | Some t' \<Rightarrow> run_schedule cls sizeP mail schedule t')"

text \<open>
  The state when rank 0 creates its listener: \<open>ub\<close> is the \<^verbatim>\<open>colors_ub\<close> the seed loop
  left on rank 0, and no worker has received its first message.
\<close>

definition worker_threads_start :: "solution_class \<Rightarrow> worker_threads" where
  "worker_threads_start cls =
     \<lparr>colors_ub = initial_ub cls, best_so_far = default_solution cls, stdout = [], sends = [],
      dfs_stack = [], listening = True,
      main_at = AwaitInitial, listener_at = NotCreated, bcasts_seen = 0\<rparr>"

definition system_start :: "solution_class \<Rightarrow> nat \<Rightarrow> system" where
  "system_start cls ub =
     \<lparr>rank0 = aggregator_start cls ub, rank0_returned = False, received = (\<lambda>rank. 0),
      workers = (\<lambda>rank. worker_threads_start cls)\<rparr>"

section \<open>Colourings, and what the search keeps true\<close>

text \<open>
  A colouring of the \<open>n\<close> vertices is proper when no edge joins two vertices of one
  colour, and the chromatic number is the least number of colours of a proper colouring.
\<close>

definition proper_coloring :: "graph \<Rightarrow> nat \<Rightarrow> nat list \<Rightarrow> bool" where
  "proper_coloring g n c =
     (length c = n \<and>
      list_all (\<lambda>i. list_all (\<lambda>j. \<not> (adj g i j \<and> c ! i = c ! j)) [0..<n]) [0..<n])"

definition chromatic_number :: "graph \<Rightarrow> nat \<Rightarrow> nat" where
  "chromatic_number g n = (LEAST k. \<exists>c. proper_coloring g n c \<and> card (set c) = k)"

text \<open>
  What the run reports is optimal: a complete node whose colour vector is a proper
  colouring in \<open>tot_colors\<close> colours, the chromatic number.
\<close>

definition optimal :: "graph \<Rightarrow> nat \<Rightarrow> solution \<Rightarrow> bool" where
  "optimal g n b =
     (next b = n \<and> proper_coloring g n (color b) \<and> card (set (color b)) = tot_colors b \<and>
      tot_colors b = chromatic_number g n)"

text \<open>
  The invariants of a node (section 3 of the spec): the first \<open>next\<close> vertices carry
  colours of \<open>1..tot_colors\<close>, each of these colours is used, the other vertices carry 0,
  and no edge among the coloured vertices joins two of one colour. A colouring extends a
  node when it is proper and agrees with the node on the coloured vertices.
\<close>

definition valid :: "graph \<Rightarrow> nat \<Rightarrow> solution \<Rightarrow> bool" where
  "valid g n u =
     (length (color u) = n \<and> next u \<le> n \<and>
      (\<forall>i<next u. 1 \<le> color u ! i \<and> color u ! i \<le> tot_colors u) \<and>
      (\<forall>i<n. next u \<le> i \<longrightarrow> color u ! i = 0) \<and>
      (\<forall>i<next u. \<forall>j<i. adj g i j \<longrightarrow> color u ! i \<noteq> color u ! j) \<and>
      (\<forall>c. 1 \<le> c \<and> c \<le> tot_colors u \<longrightarrow> (\<exists>i<next u. color u ! i = c)))"

definition extends :: "graph \<Rightarrow> nat \<Rightarrow> solution \<Rightarrow> nat list \<Rightarrow> bool" where
  "extends g n u c = (proper_coloring g n c \<and> (\<forall>i<next u. c ! i = color u ! i))"

text \<open>
  For a number \<open>k\<close> of colours: a list of nodes is promising when one of them extends to
  a proper colouring in at most \<open>k\<close> colours; a list of messages has reported \<open>k\<close> when
  one of them carries a solution in at most \<open>k\<close> colours; a set of broadcast values has
  been heard at \<open>k\<close> when one of them, other than \<^verbatim>\<open>RETURN\<close>, is at most \<open>k\<close>. Reports are
  sound when every solution they carry is a complete valid node.
\<close>

definition promising :: "graph \<Rightarrow> nat \<Rightarrow> nat \<Rightarrow> solution list \<Rightarrow> bool" where
  "promising g n k st = (\<exists>u\<in>set st. \<exists>c. extends g n u c \<and> card (set c) \<le> k)"

definition reported :: "nat \<Rightarrow> envelope list \<Rightarrow> bool" where
  "reported k es = list_ex (\<lambda>e. tag e = SOLUTION_FROM_WORKER \<and> tot_colors (body e) \<le> k) es"

definition heard :: "nat \<Rightarrow> nat set \<Rightarrow> bool" where
  "heard k B = (\<exists>v\<in>B. v \<noteq> RETURN \<and> v \<le> k)"

definition sound_reports :: "graph \<Rightarrow> nat \<Rightarrow> envelope list \<Rightarrow> bool" where
  "sound_reports g n es =
     (\<forall>e\<in>set es. tag e = SOLUTION_FROM_WORKER \<longrightarrow> valid g n (body e) \<and> next (body e) = n)"

text \<open>
  What the seed loop keeps true: the queue holds valid nodes of at most two consecutive
  depths, the shallower first; the bound is still \<open>n + 1\<close>, or every node left is final and
  \<^verbatim>\<open>best_so_far\<close> is a complete valid node of \<open>colors_ub\<close> colours; the queue is promising
  or the bound is at most \<open>k\<close>; and the queue has at most \<open>size - 1\<close> nodes. The loop that
  ends by \<^verbatim>\<open>break\<close> is ready for the dispatch.
\<close>

definition level :: "solution list \<Rightarrow> bool" where
  "level q = (sorted (map next q) \<and> (\<forall>v\<in>set q. next v \<le> next (hd q) + 1))"

definition incumbent :: "graph \<Rightarrow> nat \<Rightarrow> nat \<Rightarrow> solution \<Rightarrow> bool" where
  "incumbent g n ub b = (valid g n b \<and> next b = n \<and> tot_colors b = ub)"

definition seed_inv :: "graph \<Rightarrow> nat \<Rightarrow> nat \<Rightarrow> nat \<Rightarrow> coordinator \<Rightarrow> bool" where
  "seed_inv g n k sizeP s =
     ((\<forall>u\<in>set (initial_q s). valid g n u) \<and> level (initial_q s) \<and>
      (colors_ub s = n + 1 \<or>
       ((\<forall>u\<in>set (initial_q s). next u = n) \<and> incumbent g n (colors_ub s) (best_so_far s))) \<and>
      (promising g n k (initial_q s) \<or> colors_ub s \<le> k) \<and>
      length (initial_q s) \<le> sizeP - 1)"

definition ready :: "graph \<Rightarrow> nat \<Rightarrow> nat \<Rightarrow> nat \<Rightarrow> coordinator \<Rightarrow> bool" where
  "ready g n k sizeP s =
     (colors_ub s = n + 1 \<and> (\<forall>u\<in>set (initial_q s). valid g n u) \<and>
      promising g n k (initial_q s) \<and> length (initial_q s) \<le> sizeP - 1 \<and> initial_q s \<noteq> [])"

text \<open>
  What the listener of rank 0 keeps true: the bound is still \<open>n + 1\<close> or \<^verbatim>\<open>best\<close> is a
  complete valid node of \<open>colors_ub\<close> colours, and every bound it has broadcast is at
  least the bound it holds.
\<close>

definition aggregator_inv :: "graph \<Rightarrow> nat \<Rightarrow> aggregator \<Rightarrow> bool" where
  "aggregator_inv g n a =
     ((colors_ub a = n + 1 \<or> incumbent g n (colors_ub a) (best a)) \<and>
      (\<forall>v\<in>set (broadcasts a). v \<noteq> RETURN \<longrightarrow> colors_ub a \<le> v))"

subsection \<open>What a run keeps true\<close>

text \<open>
  The nodes a worker still has to search: the node of its first message while it waits for
  it, then its stack and the node its main thread holds.
\<close>

definition pending :: "envelope list \<Rightarrow> nat \<Rightarrow> worker_threads \<Rightarrow> solution list" where
  "pending mail rank w =
     (case main_at w of
        AwaitInitial \<Rightarrow>
          (case find (\<lambda>e. peer e = rank) mail of
             None \<Rightarrow> []
           | Some init \<Rightarrow> if tag init = INITIAL_NODE then [body init] else [])
      | LoopHead \<Rightarrow> dfs_stack w
      | PruneTest u \<Rightarrow> u # dfs_stack w
      | GetNext u \<Rightarrow> u # dfs_stack w
      | ImproveTest u \<Rightarrow> u # dfs_stack w
      | StoreBound u \<Rightarrow> u # dfs_stack w
      | SendBest \<Rightarrow> dfs_stack w
      | SendReturn \<Rightarrow> []
      | AtBarrier \<Rightarrow> [])"

text \<open>
  What a worker keeps true on its nodes: the nodes it has to search are valid, the node
  held at a comparison with the bound is final or not as the branch taken says, the node
  about to be sent is a complete valid node, and its reports are sound.
\<close>

definition at_ok :: "graph \<Rightarrow> nat \<Rightarrow> worker_threads \<Rightarrow> bool" where
  "at_ok g n w =
     (case main_at w of
        PruneTest u \<Rightarrow> next u \<noteq> n
      | GetNext u \<Rightarrow> next u \<noteq> n
      | ImproveTest u \<Rightarrow> next u = n
      | StoreBound u \<Rightarrow> next u = n
      | SendBest \<Rightarrow> valid g n (best_so_far w) \<and> next (best_so_far w) = n
      | _ \<Rightarrow> True)"

definition nodes_ok :: "graph \<Rightarrow> nat \<Rightarrow> envelope list \<Rightarrow> nat \<Rightarrow> worker_threads \<Rightarrow> bool" where
  "nodes_ok g n mail rank w =
     ((\<forall>u\<in>set (pending mail rank w). valid g n u) \<and> at_ok g n w \<and>
      sound_reports g n (sends w))"

text \<open>
  What a worker keeps true on the values its listener handles: a value it holds was
  broadcast by rank 0 and is not \<^verbatim>\<open>RETURN\<close>, it has seen no more values than rank 0 has
  broadcast, and it does not exist before the first message is received.
\<close>

definition hears_ok :: "nat list \<Rightarrow> worker_threads \<Rightarrow> bool" where
  "hears_ok bcasts w =
     ((case listener_at w of
         BoundTest v \<Rightarrow> v \<in> set bcasts \<and> v \<noteq> RETURN
       | BoundStore v \<Rightarrow> v \<in> set bcasts \<and> v \<noteq> RETURN
       | _ \<Rightarrow> True) \<and>
      bcasts_seen w \<le> length bcasts \<and>
      (main_at w = AwaitInitial \<longrightarrow> listener_at w = NotCreated))"

text \<open>
  What a worker keeps true on its bound, for a number \<open>k\<close> of colours: the bound is at
  most \<open>k\<close> only when a solution in at most \<open>k\<close> colours is known, that is, reported by
  this worker, broadcast by rank 0, or stored and about to be sent. This holds whichever
  thread assigned the bound last, also when the bound has gone up.
\<close>

definition known :: "nat \<Rightarrow> nat list \<Rightarrow> worker_threads \<Rightarrow> bool" where
  "known k bcasts w =
     (reported k (sends w) \<or> heard k (set bcasts) \<or>
      (main_at w = SendBest \<and> tot_colors (best_so_far w) \<le> k))"

definition bound_ok :: "nat \<Rightarrow> nat list \<Rightarrow> worker_threads \<Rightarrow> bool" where
  "bound_ok k bcasts w = (colors_ub w \<le> k \<longrightarrow> known k bcasts w)"

text \<open>
  The messages of a worker carry the tag \<^verbatim>\<open>RETURN\<close> only as the last message of a worker
  that is in \<^verbatim>\<open>MPI_Barrier\<close>.
\<close>

definition return_last :: "worker_threads \<Rightarrow> bool" where
  "return_last w =
     (if main_at w = AtBarrier
      then sends w \<noteq> [] \<and> tag (last (sends w)) = RETURN \<and>
           (\<forall>m\<in>set (butlast (sends w)). tag m \<noteq> RETURN)
      else \<forall>m\<in>set (sends w). tag m \<noteq> RETURN)"

text \<open>
  The dispatch: every message tagged \<^verbatim>\<open>INITIAL_NODE\<close> carries a valid node, and every
  worker is sent a message.
\<close>

definition mail_ok :: "graph \<Rightarrow> nat \<Rightarrow> envelope list \<Rightarrow> bool" where
  "mail_ok g n mail = (\<forall>e\<in>set mail. tag e = INITIAL_NODE \<longrightarrow> valid g n (body e))"

definition mail_covers :: "nat \<Rightarrow> envelope list \<Rightarrow> bool" where
  "mail_covers sizeP mail =
     (\<forall>rank. 1 \<le> rank \<and> rank < sizeP \<longrightarrow> find (\<lambda>e. peer e = rank) mail \<noteq> None)"

text \<open>
  A worker beside rank 0: the above, and every solution of this worker that rank 0 has
  received has at least as many colours as the bound of rank 0.
\<close>

definition worker_ok ::
  "graph \<Rightarrow> nat \<Rightarrow> nat \<Rightarrow> envelope list \<Rightarrow> aggregator \<Rightarrow> nat \<Rightarrow> nat \<Rightarrow> worker_threads \<Rightarrow> bool" where
  "worker_ok g n k mail a r rank w =
     (nodes_ok g n mail rank w \<and> hears_ok (broadcasts a) w \<and> bound_ok k (broadcasts a) w \<and>
      return_last w \<and> r \<le> length (sends w) \<and>
      (\<forall>m\<in>set (take r (sends w)).
         tag m = SOLUTION_FROM_WORKER \<longrightarrow> colors_ub a \<le> tot_colors (body m)))"

text \<open>The workers whose \<^verbatim>\<open>RETURN\<close> message rank 0 has received.\<close>

definition finished_workers :: "nat \<Rightarrow> system \<Rightarrow> nat set" where
  "finished_workers sizeP t =
     {rank. 1 \<le> rank \<and> rank < sizeP \<and> main_at (workers t rank) = AtBarrier \<and>
            received t rank = length (sends (workers t rank))}"

text \<open>
  What a run keeps true: every worker is as above; the listener of rank 0 has counted the
  workers whose \<^verbatim>\<open>RETURN\<close> message it received; the bound of rank 0 is at most \<open>k\<close>, or
  the worker \<open>lucky\<close> knows a solution in at most \<open>k\<close> colours or still has a node that
  extends to one; and once the listener of rank 0 has returned, it has counted
  \<open>size - 1\<close> workers and printed \<^verbatim>\<open>best\<close> last.
\<close>

definition system_inv ::
  "graph \<Rightarrow> nat \<Rightarrow> nat \<Rightarrow> nat \<Rightarrow> envelope list \<Rightarrow> nat \<Rightarrow> system \<Rightarrow> bool" where
  "system_inv g n k sizeP mail lucky t =
     ((\<forall>rank. 1 \<le> rank \<and> rank < sizeP \<longrightarrow>
         worker_ok g n k mail (rank0 t) (received t rank) rank (workers t rank)) \<and>
      aggregator_inv g n (rank0 t) \<and>
      worker_done (rank0 t) = card (finished_workers sizeP t) \<and>
      (colors_ub (rank0 t) \<le> k \<or> known k (broadcasts (rank0 t)) (workers t lucky) \<or>
       promising g n k (pending mail lucky (workers t lucky))) \<and>
      (rank0_returned t \<longrightarrow>
         sizeP - 1 \<le> worker_done (rank0 t) \<and>
         last (stdout (rank0 t)) = FinalOptimalSolution (best (rank0 t))))"

text \<open>
  A run ends: each step lowers \<open>system_measure\<close>. A node of the search tree weighs
  \<open>4 (n + 1)\<^bsup>n - next\<^esup>\<close>, more than its children together and the steps spent on it;
  a main thread weighs its nodes and the steps to its next pop; a listener weighs four
  steps for each broadcast it can still see, and rank 0 broadcasts at most its bound many
  values and \<^verbatim>\<open>RETURN\<close>; a message sent and not received weighs one step.
\<close>

definition node_weight :: "nat \<Rightarrow> solution \<Rightarrow> nat" where
  "node_weight n u = 4 * (n + 1) ^ (n - next u)"

definition stack_weight :: "nat \<Rightarrow> solution list \<Rightarrow> nat" where
  "stack_weight n st = sum_list (map (node_weight n) st)"

definition main_measure :: "nat \<Rightarrow> worker_threads \<Rightarrow> nat" where
  "main_measure n w =
     (case main_at w of
        AwaitInitial \<Rightarrow> 3 + 4 * (n + 1) ^ n
      | LoopHead \<Rightarrow> 2 + stack_weight n (dfs_stack w)
      | PruneTest u \<Rightarrow> 1 + node_weight n u + stack_weight n (dfs_stack w)
      | GetNext u \<Rightarrow> node_weight n u + stack_weight n (dfs_stack w)
      | ImproveTest u \<Rightarrow> 1 + node_weight n u + stack_weight n (dfs_stack w)
      | StoreBound u \<Rightarrow> node_weight n u + stack_weight n (dfs_stack w)
      | SendBest \<Rightarrow> 3 + stack_weight n (dfs_stack w)
      | SendReturn \<Rightarrow> 1
      | AtBarrier \<Rightarrow> 0)"

definition listener_measure :: "nat \<Rightarrow> worker_threads \<Rightarrow> nat" where
  "listener_measure budget w =
     (case listener_at w of
        NotCreated \<Rightarrow> 4 * (budget - bcasts_seen w)
      | InBcast \<Rightarrow> 4 * (budget - bcasts_seen w)
      | BoundTest v \<Rightarrow> 4 * (budget - bcasts_seen w) + 3
      | BoundStore v \<Rightarrow> 4 * (budget - bcasts_seen w) + 2
      | BoundPrint \<Rightarrow> 4 * (budget - bcasts_seen w) + 1
      | ListenerReturned \<Rightarrow> 0)"

definition broadcast_budget :: "system \<Rightarrow> nat" where
  "broadcast_budget t =
     length (broadcasts (rank0 t)) + colors_ub (rank0 t) + (if rank0_returned t then 0 else 1)"

definition worker_measure :: "nat \<Rightarrow> nat \<Rightarrow> nat \<Rightarrow> worker_threads \<Rightarrow> nat" where
  "worker_measure n budget r w =
     2 * main_measure n w + (length (sends w) - r) + listener_measure budget w"

definition system_measure :: "nat \<Rightarrow> nat \<Rightarrow> system \<Rightarrow> nat" where
  "system_measure n sizeP t =
     sum (\<lambda>rank. worker_measure n (broadcast_budget t) (received t rank) (workers t rank))
       {1..<sizeP}
     + (if rank0_returned t then 0 else 1)"

section \<open>Inputs of the examples\<close>

text \<open>
  The complete graph on three vertices, three and one isolated vertices, the cycle on five
  vertices with one of its colourings in three colours, and nodes and messages over them.
\<close>

definition triangle :: graph where
  "triangle = [[False, True, True], [True, False, True], [True, True, False]]"

definition three_isolated :: solution_class where
  "three_isolated = spec_solution (empty_matrix 3) 3"

definition one_vertex :: solution_class where
  "one_vertex = spec_solution (empty_matrix 1) 1"

definition node_11 :: solution where
  "node_11 = \<lparr>color = [1, 1, 0], tot_colors = 1, next = 2\<rparr>"

definition node_12 :: solution where
  "node_12 = \<lparr>color = [1, 2, 0], tot_colors = 2, next = 2\<rparr>"

definition final_1 :: solution where
  "final_1 = \<lparr>color = [1], tot_colors = 1, next = 1\<rparr>"

definition seed_state_3 :: coordinator where
  "seed_state_3 = (seed_start three_isolated)\<lparr>initial_q := [node_11, node_12]\<rparr>"


definition five_cycle :: graph where
  "five_cycle =
     [[False, True, False, False, True],
      [True, False, True, False, False],
      [False, True, False, True, False],
      [False, False, True, False, True],
      [True, False, False, True, False]]"

definition cycle_coloring :: solution where
  "cycle_coloring = \<lparr>color = [1, 2, 1, 2, 3], tot_colors = 3, next = 5\<rparr>"

text \<open>
  A run on four isolated vertices with three processes: the dispatch, and a schedule of
  59 steps that runs every thread to its end. Worker 1 reports a colouring in two colours
  and rank 0 broadcasts 2; the listener of worker 2 passes its test of \<open>2 < 5\<close>; the main
  thread of worker 2 finds the colouring in one colour, passes its test of \<open>1 < 5\<close> and
  stores 1 (the 24th step); the listener then stores 2 (the 25th step).
\<close>

definition four_isolated :: solution_class where
  "four_isolated = spec_solution (empty_matrix 4) 4"

definition run_dispatched :: coordinator where
  "run_dispatched =
     \<lparr>colors_ub = 5, best_so_far = empty_solution 4,
      stdout = [QueueReport 2 5 0, SentStartingNodes],
      sends = [\<lparr>body = \<lparr>color = [1, 2, 0, 0], tot_colors = 2, next = 2\<rparr>, peer = 1,
                tag = INITIAL_NODE\<rparr>,
               \<lparr>body = \<lparr>color = [1, 1, 0, 0], tot_colors = 1, next = 2\<rparr>, peer = 2,
                tag = INITIAL_NODE\<rparr>],
      initial_q = []\<rparr>"

definition race_schedule :: "actor list" where
  "race_schedule =
     replicate 11 (WorkerMain 1)
     @ [RootListener 1, WorkerMain 2, WorkerListener 2, WorkerListener 2]
     @ replicate 9 (WorkerMain 2) @ [WorkerListener 2, WorkerListener 2]
     @ replicate 7 (WorkerMain 2) @ replicate 10 (WorkerMain 1)
     @ [RootListener 2, RootListener 2, RootListener 1, RootListener 0]
     @ replicate 7 (WorkerListener 1) @ replicate 5 (WorkerListener 2)"

section \<open>The graph constructors\<close>

lemma symmetric_iff:
  "symmetric dim g \<longleftrightarrow> (\<forall>i<dim. \<forall>j<dim. adj g i j = adj g j i)"
  by (auto simp: symmetric_def list_all_iff)

lemma irreflexive_iff: "irreflexive dim g \<longleftrightarrow> (\<forall>i<dim. \<not> adj g i i)"
  by (auto simp: irreflexive_def list_all_iff)

lemma square_iff: "square dim g \<longleftrightarrow> length g = dim \<and> (\<forall>i<dim. length (g ! i) = dim)"
  by (auto simp: square_def list_all_length)

lemma square_empty_matrix: "square dim (empty_matrix dim)"
  by (simp add: square_iff empty_matrix_def)

lemma adj_empty_matrix: "i < dim \<Longrightarrow> j < dim \<Longrightarrow> \<not> adj (empty_matrix dim) i j"
  by (simp add: adj_def empty_matrix_def)

lemma square_set_entry: "square dim g \<Longrightarrow> square dim (set_entry g i j b)"
proof (cases "i < length g")
  case True
  assume "square dim g"
  with True show ?thesis
    by (auto simp: square_iff set_entry_def nth_list_update)
next
  case False
  assume "square dim g"
  with False show ?thesis
    by (simp add: set_entry_def list_update_beyond)
qed

lemma adj_set_entry:
  "square dim g \<Longrightarrow> i < dim \<Longrightarrow> j < dim \<Longrightarrow> a < dim \<Longrightarrow> c < dim \<Longrightarrow>
   adj (set_entry g i j b) a c = (if a = i \<and> c = j then b else adj g a c)"
  by (auto simp: square_iff set_entry_def adj_def nth_list_update)

lemma square_set_pair: "square dim g \<Longrightarrow> square dim (set_pair g i j b)"
  by (simp add: set_pair_def square_set_entry)

lemma adj_set_pair:
  "square dim g \<Longrightarrow> i < dim \<Longrightarrow> j < dim \<Longrightarrow> a < dim \<Longrightarrow> c < dim \<Longrightarrow>
   adj (set_pair g i j b) a c =
     (if (a = i \<and> c = j) \<or> (a = j \<and> c = i) then b else adj g a c)"
proof -
  assume sq: "square dim g" and bnd: "i < dim" "j < dim" "a < dim" "c < dim"
  have outer: "adj (set_entry (set_entry g i j b) j i b) a c =
        (if a = j \<and> c = i then b else adj (set_entry g i j b) a c)"
    by (rule adj_set_entry[OF square_set_entry[OF sq] bnd(2) bnd(1) bnd(3) bnd(4)])
  have inner: "adj (set_entry g i j b) a c = (if a = i \<and> c = j then b else adj g a c)"
    by (rule adj_set_entry[OF sq bnd])
  show ?thesis
    unfolding set_pair_def outer inner by (simp only: if_bool_eq_conj) blast
qed

lemma symmetric_set_pair:
  "square dim g \<Longrightarrow> symmetric dim g \<Longrightarrow> i < dim \<Longrightarrow> j < dim \<Longrightarrow>
   symmetric dim (set_pair g i j b)"
  by (auto simp: symmetric_iff adj_set_pair)

lemma irreflexive_set_pair:
  "square dim g \<Longrightarrow> irreflexive dim g \<Longrightarrow> i < dim \<Longrightarrow> j < dim \<Longrightarrow> i \<noteq> j \<Longrightarrow>
   irreflexive dim (set_pair g i j b)"
  by (auto simp: irreflexive_iff adj_set_pair)

lemma read_lines_invariant:
  "read_lines dim ls g = Inr g' \<Longrightarrow> square (unat dim) g \<Longrightarrow> symmetric (unat dim) g \<Longrightarrow>
   square (unat dim) g' \<and> symmetric (unat dim) g'"
proof (induction dim ls g rule: read_lines.induct)
  case (5 dim u0 v0 ls g)
  let ?u = "unat (u0 - 1)" and ?v = "unat (v0 - 1)"
  from "5.prems"(1) have inr: "?u < unat dim \<and> ?v < unat dim"
    by (auto simp: Let_def split: if_splits)
  with "5.prems"(1) have run: "read_lines dim ls (set_pair g ?u ?v True) = Inr g'"
    by (simp add: Let_def set_pair_def)
  show ?case
    using "5.IH"[OF refl refl] inr run "5.prems"(2,3)
    by (simp add: set_pair_def[symmetric] square_set_pair symmetric_set_pair)
qed (auto split: if_splits)

lemma unat_minus_one_eq:
  "unat (u0 - 1 :: u32) = unat (v0 - 1) \<longleftrightarrow> u0 = v0"
  by (metis diff_add_cancel word_unat_eq_iff)

lemma read_lines_irreflexive:
  "read_lines dim ls g = Inr g' \<Longrightarrow> square (unat dim) g \<Longrightarrow> irreflexive (unat dim) g \<Longrightarrow>
   \<not> list_ex self_loop ls \<Longrightarrow> irreflexive (unat dim) g'"
proof (induction dim ls g rule: read_lines.induct)
  case (5 dim u0 v0 ls g)
  let ?u = "unat (u0 - 1)" and ?v = "unat (v0 - 1)"
  from "5.prems"(1) have inr: "?u < unat dim \<and> ?v < unat dim"
    by (auto simp: Let_def split: if_splits)
  with "5.prems"(1) have run: "read_lines dim ls (set_pair g ?u ?v True) = Inr g'"
    by (simp add: Let_def set_pair_def)
  from "5.prems"(4) have ne: "?u \<noteq> ?v" and rest: "\<not> list_ex self_loop ls"
    by (simp_all add: unat_minus_one_eq)
  show ?case
    using "5.IH"[OF refl refl] inr run "5.prems"(2,3) ne rest
    by (simp add: set_pair_def[symmetric] square_set_pair irreflexive_set_pair)
qed (auto split: if_splits)

lemma symmetric_empty_matrix: "symmetric dim (empty_matrix dim)"
  by (simp add: symmetric_iff adj_def empty_matrix_def)

lemma irreflexive_empty_matrix: "irreflexive dim (empty_matrix dim)"
  by (simp add: irreflexive_iff adj_empty_matrix)

subsection \<open>The constructor from a density keeps the matrix well formed\<close>

lemma well_formed_set_pair:
  "well_formed_graph dim g \<Longrightarrow> i < dim \<Longrightarrow> j < dim \<Longrightarrow> i \<noteq> j \<Longrightarrow> well_formed_graph dim (set_pair g i j b)"
  by (simp add: well_formed_graph_def square_set_pair symmetric_set_pair irreflexive_set_pair)

lemma well_formed_set_diagonal:
  "well_formed_graph dim g \<Longrightarrow> i < dim \<Longrightarrow> well_formed_graph dim (set_entry g i i False)"
  unfolding well_formed_graph_def symmetric_iff irreflexive_iff
  by (auto simp: square_set_entry adj_set_entry split: if_splits)

lemma fold_preserves:
  "P s \<Longrightarrow> (\<And>x t. x \<in> set xs \<Longrightarrow> P t \<Longrightarrow> P (f x t)) \<Longrightarrow> P (fold f xs s)"
  by (induction xs arbitrary: s) simp_all

lemma well_formed_random_inner:
  "well_formed_graph dim g \<Longrightarrow> i < dim \<Longrightarrow> well_formed_graph dim (random_inner draw dim i g)"
  unfolding random_inner_def
  by (rule fold_preserves) (auto simp: set_pair_def[symmetric] well_formed_set_pair)

lemma well_formed_graph_from_density: "well_formed_graph (unat dim) (graph_from_density draw dim)"
  unfolding graph_from_density_def
  by (rule fold_preserves)
     (auto simp: well_formed_graph_def[symmetric] well_formed_set_diagonal well_formed_random_inner,
      simp add: well_formed_graph_def square_empty_matrix symmetric_empty_matrix irreflexive_empty_matrix)

lemma in_range_iff:
  "unat (u0 - 1 :: u32) < unat (dim :: u32) \<longleftrightarrow> 1 \<le> u0 \<and> u0 \<le> dim"
proof (cases "u0 = 0")
  case True
  have "unat (dim :: u32) < 2 ^ 32" using unsigned_less[of dim] by simp
  moreover have "unat (0 - 1 :: u32) = 2 ^ 32 - 1" by (simp add: unsigned_minus_1_eq_mask mask_eq_exp_minus_1)
  ultimately show ?thesis using True by (simp add: word_le_nat_alt)
next
  case False
  then have "unat (u0 - 1) = unat u0 - 1" by (simp add: unat_minus_one)
  moreover from False have "0 < unat u0" by (simp add: unat_gt_0)
  ultimately show ?thesis by (auto simp: word_le_nat_alt)
qed

lemma read_lines_in_range:
  "list_all (edge_in_range dim) ls \<Longrightarrow> read_lines dim ls g \<noteq> Inl OutOfBounds"
  by (induction dim ls g rule: read_lines.induct) (simp_all add: Let_def in_range_iff)

lemma read_lines_Inr_in_range:
  "read_lines dim ls g = Inr g' \<Longrightarrow> list_all (edge_in_range dim) ls"
  by (induction dim ls g rule: read_lines.induct)
     (auto simp: Let_def in_range_iff split: if_splits)

subsection \<open>Symmetry and self-loops\<close>

text \<open>
  Claim C8 says that every successfully constructed graph is symmetric and irreflexive. The
  file constructor sets \<^verbatim>\<open>m[u][v]\<close> and \<^verbatim>\<open>m[v][u]\<close> for every edge line and never
  compares \<^verbatim>\<open>u\<close> with \<^verbatim>\<open>v\<close>: the one-line file \<^verbatim>\<open>e 1 1\<close> for \<^verbatim>\<open>dim = 2\<close> is read
  without an error and leaves \<open>adj 0 0\<close> true.
\<close>

theorem self_loop_line_counterexample:
  "graph_from_file 2 (Some [EdgeLine (Some (1, 1))]) = Inr [[True, False], [False, False]] \<and>
   adj [[True, False], [False, False]] 0 0 \<and>
   \<not> irreflexive 2 [[True, False], [False, False]]"
  by code_simp

text \<open>
  Claim C8, amended: a graph the file constructor returns is symmetric, and it is
  irreflexive when no edge line of the file names the same vertex twice; a graph of the
  density constructor is symmetric and irreflexive, whatever the draws.
\<close>

theorem constructed_graph_symmetric:
  "(graph_from_file dim (Some ls) = Inr g \<longrightarrow>
      symmetric (unat dim) g \<and> (\<not> list_ex self_loop ls \<longrightarrow> irreflexive (unat dim) g)) \<and>
   symmetric (unat dim) (graph_from_density draw dim) \<and>
   irreflexive (unat dim) (graph_from_density draw dim)"
proof (intro conjI impI)
  assume ok: "graph_from_file dim (Some ls) = Inr g"
  then have run: "read_lines dim ls (empty_matrix (unat dim)) = Inr g"
    by (simp add: graph_from_file_def)
  from read_lines_invariant[OF run square_empty_matrix symmetric_empty_matrix]
  show "symmetric (unat dim) g" by simp
  assume "\<not> list_ex self_loop ls"
  with read_lines_irreflexive[OF run square_empty_matrix irreflexive_empty_matrix]
  show "irreflexive (unat dim) g" by simp
next
  show "symmetric (unat dim) (graph_from_density draw dim)"
    using well_formed_graph_from_density[of dim draw] by (simp add: well_formed_graph_def)
  show "irreflexive (unat dim) (graph_from_density draw dim)"
    using well_formed_graph_from_density[of dim draw] by (simp add: well_formed_graph_def)
qed

text \<open>The theorem at the file \<^verbatim>\<open>p edge 2 1\<close>, \<^verbatim>\<open>e 1 2\<close>.\<close>

theorem constructed_graph_symmetric_witness:
  "graph_from_file 2 (Some [ProblemLine ''edge'' 2 1, EdgeLine (Some (1, 2))])
     = Inr [[False, True], [True, False]] \<and>
   \<not> list_ex self_loop [ProblemLine ''edge'' 2 1, EdgeLine (Some (1, 2))] \<and>
   symmetric 2 [[False, True], [True, False]] \<and>
   irreflexive 2 [[False, True], [True, False]]"
proof -
  have run: "graph_from_file 2 (Some [ProblemLine ''edge'' 2 1, EdgeLine (Some (1, 2))])
     = Inr [[False, True], [True, False]]"
    by code_simp
  have no: "\<not> list_ex self_loop [ProblemLine ''edge'' 2 1, EdgeLine (Some (1, 2))]"
    by simp
  from constructed_graph_symmetric[of 2 "[ProblemLine ''edge'' 2 1, EdgeLine (Some (1, 2))]"
      "[[False, True], [True, False]]"] run no
  show ?thesis by simp
qed

subsection \<open>The writes of the file constructor\<close>

text \<open>
  Claim C10: the file constructor writes the matrix in bounds only when every edge line
  names two vertices of \<open>1..dim\<close>. If all edge lines do, no write is out of bounds; if
  the constructor returns a graph, all edge lines did; and a first edge line that does
  not (the line \<^verbatim>\<open>e 0 1\<close>, where \<^verbatim>\<open>--u\<close> wraps to \<open>2\<^sup>3\<^sup>2 - 1\<close>, or a vertex above \<open>dim\<close>)
  is written out of bounds.
\<close>

theorem file_constructor_in_bounds_iff_edges_in_range:
  "(list_all (edge_in_range dim) ls \<longrightarrow> graph_from_file dim (Some ls) \<noteq> Inl OutOfBounds) \<and>
   (graph_from_file dim (Some ls) = Inr g \<longrightarrow> list_all (edge_in_range dim) ls) \<and>
   graph_from_file dim (Some (EdgeLine (Some (0, 1)) # ls)) = Inl OutOfBounds \<and>
   (\<not> edge_in_range dim (EdgeLine (Some (u0, v0))) \<longrightarrow>
      graph_from_file dim (Some (EdgeLine (Some (u0, v0)) # ls)) = Inl OutOfBounds)"
proof (intro conjI impI)
  assume "list_all (edge_in_range dim) ls"
  then show "graph_from_file dim (Some ls) \<noteq> Inl OutOfBounds"
    by (simp add: graph_from_file_def read_lines_in_range)
next
  assume "graph_from_file dim (Some ls) = Inr g"
  then show "list_all (edge_in_range dim) ls"
    by (simp add: graph_from_file_def read_lines_Inr_in_range)
next
  have "\<not> unat (0 - 1 :: u32) < unat dim"
    using in_range_iff[of 0 dim] by simp
  then show "graph_from_file dim (Some (EdgeLine (Some (0, 1)) # ls)) = Inl OutOfBounds"
    by (simp add: graph_from_file_def Let_def)
next
  assume "\<not> edge_in_range dim (EdgeLine (Some (u0, v0)))"
  then have "\<not> (unat (u0 - 1) < unat dim \<and> unat (v0 - 1) < unat dim)"
    by (simp add: in_range_iff)
  then show "graph_from_file dim (Some (EdgeLine (Some (u0, v0)) # ls)) = Inl OutOfBounds"
    by (auto simp: graph_from_file_def Let_def)
qed

text \<open>The theorem at \<^verbatim>\<open>dim = 2\<close>: the file \<^verbatim>\<open>e 1 2\<close>, and the lines \<^verbatim>\<open>e 0 1\<close> and \<^verbatim>\<open>e 1 3\<close> before it.\<close>

theorem file_constructor_in_bounds_iff_edges_in_range_witness:
  "list_all (edge_in_range 2) [EdgeLine (Some (1, 2))] \<and>
   graph_from_file 2 (Some [EdgeLine (Some (1, 2))]) = Inr [[False, True], [True, False]] \<and>
   graph_from_file 2 (Some [EdgeLine (Some (0, 1)), EdgeLine (Some (1, 2))]) = Inl OutOfBounds \<and>
   \<not> edge_in_range 2 (EdgeLine (Some (1, 3))) \<and>
   graph_from_file 2 (Some [EdgeLine (Some (1, 3)), EdgeLine (Some (1, 2))]) = Inl OutOfBounds"
proof -
  have ok: "list_all (edge_in_range 2) [EdgeLine (Some (1, 2))]" by simp
  have run: "graph_from_file 2 (Some [EdgeLine (Some (1, 2))]) = Inr [[False, True], [True, False]]"
    by code_simp
  have out: "\<not> edge_in_range 2 (EdgeLine (Some (1, 3)))" by simp
  from file_constructor_in_bounds_iff_edges_in_range[of 2 "[EdgeLine (Some (1, 2))]"
      "[[False, True], [True, False]]" 1 3] ok run out
  show ?thesis by simp
qed

section \<open>The wire format of a node\<close>

text \<open>
  Claim C9: a node whose colour vector has \<^verbatim>\<open>solution::dim\<close> entries is sent as the
  \<open>dim + 2\<close> numbers \<open>color[0..dim)\<close>, \<open>tot_colors\<close>, \<open>next\<close>, and receiving these
  numbers gives the same node back.
\<close>

theorem send_receive_round_trip:
  "length (color sol) = dim \<Longrightarrow>
   send_solution dim sol = Some (color sol @ [tot_colors sol, next sol]) \<and>
   length (color sol @ [tot_colors sol, next sol]) = dim + 2 \<and>
   receive_solution dim (color sol @ [tot_colors sol, next sol]) = Some sol"
  by (simp add: send_solution_def receive_solution_def list_update_append nth_append
      numeral_2_eq_2)

text \<open>The theorem at the node \<open>[1, 2, 0]\<close> of three vertices.\<close>

theorem send_receive_round_trip_witness:
  "length (color \<lparr>color = [1, 2, 0], tot_colors = 2, next = 2\<rparr>) = 3 \<and>
   send_solution 3 \<lparr>color = [1, 2, 0], tot_colors = 2, next = 2\<rparr> = Some [1, 2, 0, 2, 2] \<and>
   receive_solution 3 [1, 2, 0, 2, 2] = Some \<lparr>color = [1, 2, 0], tot_colors = 2, next = 2\<rparr>"
  using send_receive_round_trip [of "\<lparr>color = [1, 2, 0], tot_colors = 2, next = 2\<rparr>" 3]
  by simp

section \<open>Rank 0 before the dispatch\<close>

lemma seed_iteration_sends: "sends (snd (seed_iteration cls sizeP u s)) = sends s"
  by (simp add: seed_iteration_def Let_def)

lemma seed_loop_sends: "seed_loop cls sizeP s = Some s' \<Longrightarrow> sends s' = sends s"
proof (induction rule: seed_loop.raw_induct[rotated 1, consumes 1])
  case (1 loop cls sizeP s s')
  show ?case
  proof (cases "initial_q s")
    case Nil
    with 1(2) show ?thesis by simp
  next
    case (Cons u rest)
    obtain f t where it: "seed_iteration cls sizeP u (s\<lparr>initial_q := rest\<rparr>) = (f, t)"
      by (cases "seed_iteration cls sizeP u (s\<lparr>initial_q := rest\<rparr>)")
    have st: "sends t = sends s"
      using seed_iteration_sends[of cls sizeP u "s\<lparr>initial_q := rest\<rparr>"] it by simp
    show ?thesis
    proof (cases f)
      case Continue
      with 1(2) Cons it have "loop cls sizeP t = Some s'" by simp
      from 1(1)[OF this] st show ?thesis by simp
    next
      case Break
      with 1(2) Cons it st show ?thesis by simp
    qed
  qed
qed

text \<open>
  Claim C5: when the loop of the seed phase ends with an empty queue, rank 0 prints
  \<^verbatim>\<open>best_so_far\<close> as the optimal solution and calls \<^verbatim>\<open>MPI_Abort\<close> with the code 69, which
  is neither the exit code of a completed run nor the code of the other abort of \<^verbatim>\<open>main\<close>;
  it has called \<^verbatim>\<open>send_solution\<close> for no worker.
\<close>

theorem empty_frontier_aborts_without_dispatch:
  "seed_loop cls sizeP (seed_start cls) = Some s \<Longrightarrow> initial_q s = [] \<Longrightarrow>
   rank0_main cls sizeP =
     Some (Aborted 69
       (s\<lparr>stdout := stdout s @ [OptimalSolution (best_so_far s), NoParallelismUsed]\<rparr>)) \<and>
   sends s = [] \<and> 69 \<noteq> NORMAL_EXIT \<and> 69 \<noteq> THREAD_SUPPORT_ABORT"
  using seed_loop_sends[of cls sizeP "seed_start cls" s]
  by (simp add: rank0_main_def after_seed_def seed_start_def NORMAL_EXIT_def
      THREAD_SUPPORT_ABORT_def)

lemma run_triangle:
  "seed_loop (spec_solution triangle 3) 2 (seed_start (spec_solution triangle 3)) =
     Some \<lparr>colors_ub = 3, best_so_far = \<lparr>color = [1, 2, 3], tot_colors = 3, next = 3\<rparr>,
           stdout = [PrintSolution \<lparr>color = [1, 2, 3], tot_colors = 3, next = 3\<rparr>],
           sends = [], initial_q = []\<rparr>"
  by code_simp

text \<open>The theorem on the triangle with one worker: the seed loop colours it alone.\<close>

theorem empty_frontier_aborts_without_dispatch_witness:
  "seed_loop (spec_solution triangle 3) 2 (seed_start (spec_solution triangle 3)) =
     Some \<lparr>colors_ub = 3, best_so_far = \<lparr>color = [1, 2, 3], tot_colors = 3, next = 3\<rparr>,
           stdout = [PrintSolution \<lparr>color = [1, 2, 3], tot_colors = 3, next = 3\<rparr>],
           sends = [], initial_q = []\<rparr> \<and>
   rank0_main (spec_solution triangle 3) 2 =
     Some (Aborted 69
       \<lparr>colors_ub = 3, best_so_far = \<lparr>color = [1, 2, 3], tot_colors = 3, next = 3\<rparr>,
        stdout = [PrintSolution \<lparr>color = [1, 2, 3], tot_colors = 3, next = 3\<rparr>,
                  OptimalSolution \<lparr>color = [1, 2, 3], tot_colors = 3, next = 3\<rparr>,
                  NoParallelismUsed],
        sends = [], initial_q = []\<rparr>)"
  using empty_frontier_aborts_without_dispatch[OF run_triangle] run_triangle by simp

section \<open>The node that stops the seed loop\<close>

text \<open>
  Claim C6 says that the node whose children do not fit is pushed back at the head of the
  queue and is the first node dispatched. \<^verbatim>\<open>initial_q.push(curr)\<close> appends at the back of
  the \<^verbatim>\<open>std::queue\<close>: on three isolated vertices with two workers the loop stops at the node
  \<open>[1, 1, 0]\<close> while \<open>[1, 2, 0]\<close> waits in the queue; the queue ends as \<open>[1, 2, 0]\<close>,
  \<open>[1, 1, 0]\<close>, and rank 1 gets \<open>[1, 2, 0]\<close>.
\<close>

theorem pushed_back_node_is_dispatched_last_counterexample:
  "initial_q seed_state_3 = [node_11, node_12] \<and>
   \<not> is_final three_isolated node_11 \<and>
   tot_colors node_11 < colors_ub seed_state_3 \<and>
   3 - 1 < length [node_12] + length (get_next three_isolated (colors_ub seed_state_3) node_11) \<and>
   seed_loop three_isolated 3 seed_state_3 =
     Some (seed_state_3\<lparr>initial_q := [node_12, node_11]\<rparr>) \<and>
   seed_loop three_isolated 3 (seed_start three_isolated) =
     Some (seed_state_3\<lparr>initial_q := [node_12, node_11]\<rparr>) \<and>
   hd [node_12, node_11] \<noteq> node_11 \<and>
   dispatch_nodes [node_12, node_11] 1 =
     [\<lparr>body = node_12, peer = 1, tag = INITIAL_NODE\<rparr>,
      \<lparr>body = node_11, peer = 2, tag = INITIAL_NODE\<rparr>]"
  by code_simp

lemma dispatch_nodes_append:
  "dispatch_nodes (xs @ ys) i = dispatch_nodes xs i @ dispatch_nodes ys (i + length xs)"
  by (induction xs arbitrary: i) simp_all

text \<open>
  Claim C6, amended: when the popped node \<open>u\<close> is not final, is not pruned, and its
  children do not fit beside the rest of the queue, the loop stops with \<open>u\<close> at the back
  of the queue, and \<open>u\<close> is the last node dispatched, to the rank \<open>length rest + 1\<close>.
\<close>

theorem break_pushes_node_at_back:
  "initial_q s = u # rest \<Longrightarrow> \<not> is_final cls u \<Longrightarrow> tot_colors u < colors_ub s \<Longrightarrow>
   sizeP - 1 < length rest + length (get_next cls (colors_ub s) u) \<Longrightarrow>
   seed_loop cls sizeP s = Some (s\<lparr>initial_q := rest @ [u]\<rparr>) \<and>
   dispatch_nodes (rest @ [u]) 1 =
     dispatch_nodes rest 1 @ [\<lparr>body = u, peer = length rest + 1, tag = INITIAL_NODE\<rparr>] \<and>
   sends (dispatch cls sizeP (s\<lparr>initial_q := rest @ [u]\<rparr>)) =
     sends s @ dispatch_nodes rest 1
       @ [\<lparr>body = u, peer = length rest + 1, tag = INITIAL_NODE\<rparr>]
       @ dispatch_idle (default_solution cls) (length rest + 2) sizeP"
  by (subst seed_loop.simps)
     (simp add: seed_iteration_def Let_def dispatch_nodes_append dispatch_def)

text \<open>The theorem at the state of the counterexample.\<close>

theorem break_pushes_node_at_back_witness:
  "initial_q seed_state_3 = [node_11, node_12] \<and>
   \<not> is_final three_isolated node_11 \<and>
   tot_colors node_11 < colors_ub seed_state_3 \<and>
   3 - 1 < length [node_12] + length (get_next three_isolated (colors_ub seed_state_3) node_11) \<and>
   seed_loop three_isolated 3 seed_state_3 =
     Some (seed_state_3\<lparr>initial_q := [node_12, node_11]\<rparr>) \<and>
   dispatch_nodes ([node_12] @ [node_11]) 1 =
     dispatch_nodes [node_12] 1 @ [\<lparr>body = node_11, peer = 2, tag = INITIAL_NODE\<rparr>]"
proof -
  have q: "initial_q seed_state_3 = node_11 # [node_12]" by code_simp
  have nf: "\<not> is_final three_isolated node_11" by code_simp
  have lt: "tot_colors node_11 < colors_ub seed_state_3" by code_simp
  have over: "3 - 1 < length [node_12]
     + length (get_next three_isolated (colors_ub seed_state_3) node_11)" by code_simp
  from break_pushes_node_at_back[OF q nf lt over] q nf lt over
  show ?thesis by simp
qed

section \<open>Who assigns the bound\<close>

text \<open>
  Claim C4 says that only the listener thread assigns \<^verbatim>\<open>colors_ub\<close>. The main thread
  assigns it at line 160 (rank 0, in the seed loop) and at line 266 (a worker, in the
  search): on one vertex, each of the two loop bodies takes the bound from 2 to 1 at the
  final node \<open>[1]\<close>.
\<close>

theorem main_thread_writes_bound_counterexample:
  "colors_ub ((seed_start one_vertex)\<lparr>initial_q := []\<rparr>) = 2 \<and>
   colors_ub (snd (seed_iteration one_vertex 2 final_1 ((seed_start one_vertex)\<lparr>initial_q := []\<rparr>))) = 1 \<and>
   colors_ub (worker_start one_vertex) = 2 \<and>
   colors_ub (dfs_iteration one_vertex final_1 (worker_start one_vertex)) = 1"
  by code_simp

text \<open>
  Claim C4, amended: the bound is assigned by the main thread as well as by the listener.
  An iteration of the seed loop and an iteration of the search assign it exactly when the
  popped node is final and its \<open>tot_colors\<close> is below the bound, and then store that
  \<open>tot_colors\<close>; a worker's listener assigns it exactly when the value received is not
  \<^verbatim>\<open>RETURN\<close> and is below the bound; the listener of rank 0 exactly when a message tagged
  \<^verbatim>\<open>SOLUTION_FROM_WORKER\<close> carries a \<open>tot_colors\<close> below the bound.
\<close>

theorem main_thread_writes_bound_on_improvement:
  "colors_ub (snd (seed_iteration cls sizeP u s)) =
     (if is_final cls u \<and> tot_colors u < colors_ub s then tot_colors u else colors_ub s) \<and>
   colors_ub (dfs_iteration cls u w) =
     (if is_final cls u \<and> tot_colors u < colors_ub w then tot_colors u else colors_ub w) \<and>
   colors_ub (on_broadcast rank new_ub w) =
     (if new_ub \<noteq> RETURN \<and> new_ub < colors_ub w then new_ub else colors_ub w) \<and>
   colors_ub (on_message msg a) =
     (if tag msg = SOLUTION_FROM_WORKER \<and> tot_colors (body msg) < colors_ub a
      then tot_colors (body msg) else colors_ub a)"
  by (simp add: seed_iteration_def dfs_iteration_def on_broadcast_def on_message_def Let_def)

section \<open>The bound under two writers\<close>

text \<open>Taken as one step, each of the four guarded assignments leaves the bound or lowers it.\<close>

lemma guarded_assignments_decrease:
  "colors_ub (snd (seed_iteration cls sizeP u s)) \<le> colors_ub s \<and>
   colors_ub (dfs_iteration cls u w) \<le> colors_ub w \<and>
   colors_ub (on_broadcast rank new_ub w) \<le> colors_ub w \<and>
   colors_ub (on_message msg a) \<le> colors_ub a"
  by (simp add: seed_iteration_def dfs_iteration_def on_broadcast_def on_message_def Let_def)

text \<open>
  Claim C3 says that every assignment to \<^verbatim>\<open>colors_ub\<close> stores a value below the one it
  held just before. On a worker with the bound at 5, the listener receives 2 and tests
  \<open>2 < 5\<close>; the main thread pops a final node of one colour, tests \<open>1 < 5\<close> and stores 1;
  the listener then stores 2: the bound goes from 1 up to 2.
\<close>

theorem worker_bound_rises_under_interleaving:
  "history (interleave [ListenerThread, MainThread, MainThread, ListenerThread]
              (cell_start 5 [1] [2])) = [5, 1, 2] \<and>
   \<not> strictly_decreasing [5, 1, 2] \<and>
   shared_ub (interleave [ListenerThread, MainThread, MainThread, ListenerThread]
              (cell_start 5 [1] [2])) = 2"
  by code_simp

section \<open>The value that ends the listeners\<close>

text \<open>
  Claim C2 says that the value broadcast after the last \<^verbatim>\<open>RETURN\<close> message is above \<open>n\<close>.
  It is the constant \<^verbatim>\<open>RETURN = 3\<close>. On the cycle of five vertices with two processes rank 0
  dispatches the node \<open>[1, 2, 0, 0, 0]\<close>, and the worker reports a colouring in three
  colours and then its end: rank 0 broadcasts the bound 3 and later the constant 3, and a
  worker's listener returns at the first of the two without assigning the bound.
\<close>

theorem sentinel_equals_feasible_bound:
  "RETURN = 3 \<and> \<not> 5 < RETURN \<and>
   map_option (\<lambda>r. case r of Aborted code s \<Rightarrow> [] | Dispatched s \<Rightarrow> sends s)
     (rank0_main (spec_solution five_cycle 5) 2) =
     Some [\<lparr>body = \<lparr>color = [1, 2, 0, 0, 0], tot_colors = 2, next = 2\<rparr>, peer = 1,
            tag = INITIAL_NODE\<rparr>] \<and>
   map_option sends
     (worker_main (spec_solution five_cycle 5) 1
        \<lparr>body = \<lparr>color = [1, 2, 0, 0, 0], tot_colors = 2, next = 2\<rparr>, peer = 1,
         tag = INITIAL_NODE\<rparr> []) =
     Some [\<lparr>body = cycle_coloring, peer = 0, tag = SOLUTION_FROM_WORKER\<rparr>,
           \<lparr>body = empty_solution 5, peer = 0, tag = RETURN\<rparr>] \<and>
   map_option (\<lambda>r. broadcasts (fst r))
     (listen_for_ub_updates_from_workers 2
        [\<lparr>body = cycle_coloring, peer = 1, tag = SOLUTION_FROM_WORKER\<rparr>,
         \<lparr>body = empty_solution 5, peer = 1, tag = RETURN\<rparr>]
        (aggregator_start (spec_solution five_cycle 5) 6)) = Some [3, 3] \<and>
   listening (listen_for_ub_updates_from_root 1 [3] (worker_start (spec_solution five_cycle 5))) = False \<and>
   colors_ub (listen_for_ub_updates_from_root 1 [3, 3] (worker_start (spec_solution five_cycle 5))) = 6"
  by code_simp

section \<open>Every worker reports its end once\<close>





lemma next_expand: "c \<in> set (expand g ub u) \<Longrightarrow> next c = next u + 1"
  by (auto simp: expand_def child_def Let_def split: if_splits)





lemma worker_done_on_message:
  "worker_done (on_message msg a) = worker_done a + (if tag msg = RETURN then 1 else 0)"
  by (simp add: on_message_def Let_def)




section \<open>The reported colouring\<close>

subsection \<open>Nodes stay valid, and an optimal colouring stays within reach\<close>

lemma proper_coloring_iff:
  "proper_coloring g n c \<longleftrightarrow>
     length c = n \<and> (\<forall>i<n. \<forall>j<n. adj g i j \<longrightarrow> c ! i \<noteq> c ! j)"
  by (auto simp: proper_coloring_def list_all_iff)

lemma valid_empty: "valid g n (empty_solution n)"
  by (simp add: valid_def empty_solution_def)

lemma extends_empty: "proper_coloring g n c \<Longrightarrow> extends g n (empty_solution n) c"
  by (simp add: extends_def empty_solution_def)

lemma prefix_colors_subset:
  assumes v: "valid g n u" and e: "extends g n u c"
  shows "{1..tot_colors u} \<subseteq> set c"
proof
  fix x assume "x \<in> {1..tot_colors u}"
  with v obtain i where i: "i < next u" "color u ! i = x" by (auto simp: valid_def)
  from v i have "i < n" by (simp add: valid_def)
  moreover from e have "length c = n" by (simp add: extends_def proper_coloring_iff)
  moreover from e i have "c ! i = x" by (simp add: extends_def)
  ultimately show "x \<in> set c" by (metis nth_mem)
qed

lemma tot_le_card:
  assumes "valid g n u" "extends g n u c"
  shows "tot_colors u \<le> card (set c)"
proof -
  have "card {1..tot_colors u} \<le> card (set c)"
    using prefix_colors_subset[OF assms] by (intro card_mono) simp_all
  then show ?thesis by simp
qed

lemma valid_child:
  assumes v: "valid g n u" and lt: "next u < n"
    and x: "1 \<le> x" "x \<le> k" "tot_colors u \<le> k"
    and forb: "\<And>j. j < next u \<Longrightarrow> adj g (next u) j \<Longrightarrow> color u ! j \<noteq> x"
    and onto: "\<And>c. tot_colors u < c \<Longrightarrow> c \<le> k \<Longrightarrow> c = x"
  shows "valid g n (child u x k)"
proof -
  let ?v = "next u" and ?c = "(color u)[next u := x]"
  have len: "length (color u) = n" using v by (simp add: valid_def)
  have at: "?c ! ?v = x" using len lt by simp
  have other: "\<And>i. i \<noteq> ?v \<Longrightarrow> ?c ! i = color u ! i" by simp
  have range: "\<forall>i<Suc ?v. 1 \<le> ?c ! i \<and> ?c ! i \<le> k"
  proof (intro allI impI)
    fix i assume "i < Suc ?v"
    show "1 \<le> ?c ! i \<and> ?c ! i \<le> k"
    proof (cases "i = ?v")
      case True
      with at x show ?thesis by simp
    next
      case False
      with \<open>i < Suc ?v\<close> have "i < ?v" by simp
      with v have "1 \<le> color u ! i \<and> color u ! i \<le> tot_colors u" by (simp add: valid_def)
      with x other[OF False] show ?thesis by simp
    qed
  qed
  have zero: "\<forall>i<n. Suc ?v \<le> i \<longrightarrow> ?c ! i = 0"
    using v other by (auto simp: valid_def)
  have proper: "\<forall>i<Suc ?v. \<forall>j<i. adj g i j \<longrightarrow> ?c ! i \<noteq> ?c ! j"
  proof (intro allI impI)
    fix i j assume ij: "i < Suc ?v" "j < i" "adj g i j"
    show "?c ! i \<noteq> ?c ! j"
    proof (cases "i = ?v")
      case True
      with ij forb[of j] at other[of j] show ?thesis by auto
    next
      case False
      with ij have "i < ?v" "j < ?v" by simp_all
      with ij v other[of i] other[of j] show ?thesis by (auto simp: valid_def)
    qed
  qed
  have surj: "\<forall>c. 1 \<le> c \<and> c \<le> k \<longrightarrow> (\<exists>i<Suc ?v. ?c ! i = c)"
  proof (intro allI impI)
    fix c assume c: "1 \<le> c \<and> c \<le> k"
    show "\<exists>i<Suc ?v. ?c ! i = c"
    proof (cases "c \<le> tot_colors u")
      case True
      with c v obtain i where i: "i < ?v" "color u ! i = c" by (auto simp: valid_def)
      then have "?c ! i = c" using other[of i] by simp
      with i show ?thesis using less_Suc_eq by blast
    next
      case False
      with c onto[of c] have "c = x" by simp
      with at show ?thesis by blast
    qed
  qed
  show ?thesis
    unfolding valid_def child_def using len lt range zero proper surj by simp
qed

lemma not_forbidden:
  "x \<notin> set (forbidden g u) \<Longrightarrow> j < next u \<Longrightarrow> adj g (next u) j \<Longrightarrow> color u ! j \<noteq> x"
  by (auto simp: forbidden_def)

lemma valid_child_reuse:
  assumes "valid g n u" "next u < n" "1 \<le> x" "x \<le> tot_colors u" "x \<notin> set (forbidden g u)"
  shows "valid g n (child u x (tot_colors u))"
  using assms by (intro valid_child) (auto dest: not_forbidden)

lemma valid_child_fresh:
  assumes v: "valid g n u" and lt: "next u < n"
  shows "valid g n (child u (tot_colors u + 1) (tot_colors u + 1))"
proof (rule valid_child[OF v lt])
  fix j assume "j < next u"
  with v have "color u ! j \<le> tot_colors u" by (simp add: valid_def)
  then show "color u ! j \<noteq> tot_colors u + 1" by simp
qed auto

lemma valid_expand:
  assumes "valid g n u" "next u < n" "ch \<in> set (expand g ub u)"
  shows "valid g n ch"
  using assms valid_child_reuse[OF assms(1,2)] valid_child_fresh[OF assms(1,2)]
  by (auto simp: expand_def Let_def split: if_splits)

lemma swap_two:
  "\<exists>s :: nat \<Rightarrow> nat. inj s \<and> s x = y \<and> (\<forall>z. z \<noteq> x \<and> z \<noteq> y \<longrightarrow> s z = z)"
  by (rule exI[of _ "\<lambda>z. if z = x then y else if z = y then x else z"])
     (auto simp: inj_def)

lemma expand_keeps_extension:
  assumes v: "valid g n u" and lt: "next u < n" and e: "extends g n u c"
    and ub: "card (set c) < ub"
  shows "\<exists>ch \<in> set (expand g ub u). \<exists>c'. extends g n ch c' \<and> card (set c') = card (set c)"
proof -
  let ?v = "next u" and ?t = "tot_colors u"
  let ?x = "c ! ?v"
  have len: "length (color u) = n" using v by (simp add: valid_def)
  have lc: "length c = n" and pc: "\<And>i j. i < n \<Longrightarrow> j < n \<Longrightarrow> adj g i j \<Longrightarrow> c ! i \<noteq> c ! j"
    using e by (auto simp: extends_def proper_coloring_iff)
  have pre: "\<And>i. i < ?v \<Longrightarrow> c ! i = color u ! i" using e by (simp add: extends_def)
  show ?thesis
  proof (cases "1 \<le> ?x \<and> ?x \<le> ?t")
    case True
    have "?x \<notin> set (forbidden g u)"
    proof
      assume "?x \<in> set (forbidden g u)"
      then obtain j where j: "j < ?v" "adj g ?v j" "color u ! j = ?x"
        by (auto simp: forbidden_def)
      with pc[of ?v j] lt pre[of j] show False by simp
    qed
    with True have "?x \<in> set (filter (\<lambda>c. c \<notin> set (forbidden g u)) [1..<?t + 1])"
      by (simp del: upt_Suc)
    then have mem: "child u ?x ?t \<in> set (expand g ub u)"
      unfolding expand_def Let_def by (simp del: upt_Suc)
    have "\<forall>i<next (child u ?x ?t). c ! i = color (child u ?x ?t) ! i"
    proof (intro allI impI)
      fix i assume "i < next (child u ?x ?t)"
      then have i: "i < Suc ?v" by (simp add: child_def)
      show "c ! i = color (child u ?x ?t) ! i"
      proof (cases "i = ?v")
        case True
        then show ?thesis using len lt by (simp add: child_def)
      next
        case neq: False
        with i have "i < ?v" by simp
        from pre[OF this] neq show ?thesis by (simp add: child_def)
      qed
    qed
    with e have "extends g n (child u ?x ?t) c" by (simp add: extends_def)
    with mem show ?thesis by (intro bexI[of _ "child u ?x ?t"] exI[of _ c]) simp_all
  next
    case False
    let ?y = "?t + 1"
    from swap_two[of ?x ?y]
    obtain s where inj: "inj s" and sx: "s ?x = ?y"
      and others: "\<And>z. z \<noteq> ?x \<and> z \<noteq> ?y \<Longrightarrow> s z = z"
      by blast
    have fix_low: "\<And>z. 1 \<le> z \<Longrightarrow> z \<le> ?t \<Longrightarrow> s z = z"
    proof (rule others)
      fix z assume z: "1 \<le> z" "z \<le> ?t"
      with False have "z \<noteq> ?x" by blast
      moreover from z have "z \<noteq> ?y" by simp
      ultimately show "z \<noteq> ?x \<and> z \<noteq> ?y" by simp
    qed
    let ?c' = "map s c"
    have xin: "?x \<in> set c" using lc lt by simp
    have "insert ?x {1 .. ?t} \<subseteq> set c"
      using prefix_colors_subset[OF v e] xin by simp
    then have "card (insert ?x {1 .. ?t}) \<le> card (set c)"
      by (intro card_mono) simp_all
    moreover have "?x \<notin> {1 .. ?t}" using False by simp
    ultimately have "?t + 1 \<le> card (set c)" by simp
    with ub have "?t + 1 \<le> ub - 1" by simp
    then have mem: "child u ?y ?y \<in> set (expand g ub u)"
      unfolding expand_def Let_def by (simp del: upt_Suc)
    have propc: "proper_coloring g n ?c'"
      unfolding proper_coloring_iff
    proof (intro conjI allI impI)
      show "length ?c' = n" using lc by simp
    next
      fix i j assume ij: "i < n" "j < n" "adj g i j"
      from pc[OF this] have "s (c ! i) \<noteq> s (c ! j)" using inj by (simp add: inj_eq)
      with ij lc show "?c' ! i \<noteq> ?c' ! j" by simp
    qed
    have agree: "\<forall>i<next (child u ?y ?y). ?c' ! i = color (child u ?y ?y) ! i"
    proof (intro allI impI)
      fix i assume "i < next (child u ?y ?y)"
      then have i: "i < Suc ?v" by (simp add: child_def)
      show "?c' ! i = color (child u ?y ?y) ! i"
      proof (cases "i = ?v")
        case True
        then show ?thesis using lc lt len sx by (simp add: child_def)
      next
        case neq: False
        with i have iv: "i < ?v" by simp
        with v have "1 \<le> color u ! i \<and> color u ! i \<le> ?t" by (simp add: valid_def)
        with fix_low[of "color u ! i"] pre[OF iv] have "s (c ! i) = color u ! i" by simp
        with neq iv lc lt show ?thesis by (simp add: child_def)
      qed
    qed
    have "inj_on s (set c)" using inj by (rule inj_on_subset) simp
    then have "card (s ` set c) = card (set c)" by (rule card_image)
    then have samecard: "card (set ?c') = card (set c)" by simp
    from propc agree have ext: "extends g n (child u ?y ?y) ?c'" by (simp add: extends_def)
    from ext samecard have "extends g n (child u ?y ?y) ?c' \<and> card (set ?c') = card (set c)"
      by (rule conjI)
    with mem show ?thesis by blast
  qed
qed

lemma final_is_proper:
  assumes v: "valid g n f" and fin: "next f = n"
    and sym: "symmetric n g" and irr: "irreflexive n g"
  shows "proper_coloring g n (color f)" and "card (set (color f)) = tot_colors f"
proof -
  have len: "length (color f) = n" using v by (simp add: valid_def)
  have low: "\<And>i j. i < n \<Longrightarrow> j < i \<Longrightarrow> adj g i j \<Longrightarrow> color f ! i \<noteq> color f ! j"
    using v fin by (simp add: valid_def)
  have symm: "\<And>i j. i < n \<Longrightarrow> j < n \<Longrightarrow> adj g i j = adj g j i"
    using sym by (auto simp: symmetric_def list_all_iff)
  have irrf: "\<And>i. i < n \<Longrightarrow> \<not> adj g i i"
    using irr by (auto simp: irreflexive_def list_all_iff)
  show "proper_coloring g n (color f)"
    unfolding proper_coloring_iff
  proof (intro conjI allI impI)
    show "length (color f) = n" by (rule len)
  next
    fix i j assume ij: "i < n" "j < n" "adj g i j"
    consider "j < i" | "i < j" | "i = j" by linarith
    then show "color f ! i \<noteq> color f ! j"
    proof cases
      case 1 with ij low show ?thesis by simp
    next
      case 2
      with ij symm[of i j] low[of j i] show ?thesis by auto
    next
      case 3 with ij irrf show ?thesis by simp
    qed
  qed
  have "set (color f) = {1..tot_colors f}"
  proof (intro equalityI subsetI)
    fix x assume "x \<in> set (color f)"
    then obtain i where "i < n" "color f ! i = x" using len by (auto simp: in_set_conv_nth)
    with v fin show "x \<in> {1..tot_colors f}" by (auto simp: valid_def)
  next
    fix x assume "x \<in> {1..tot_colors f}"
    with v fin obtain i where "i < n" "color f ! i = x" by (auto simp: valid_def)
    with len show "x \<in> set (color f)" by auto
  qed
  then show "card (set (color f)) = tot_colors f" by simp
qed

lemma distinct_coloring_proper:
  assumes "irreflexive n g"
  shows "proper_coloring g n [0..<n]"
  using assms by (auto simp: proper_coloring_iff irreflexive_def list_all_iff)

lemma chromatic_attained:
  assumes "irreflexive n g"
  shows "\<exists>c. proper_coloring g n c \<and> card (set c) = chromatic_number g n"
  unfolding chromatic_number_def
  by (rule LeastI_ex) (use distinct_coloring_proper[OF assms] in blast)

lemma chromatic_le:
  "proper_coloring g n c \<Longrightarrow> chromatic_number g n \<le> card (set c)"
  unfolding chromatic_number_def by (rule Least_le) blast

subsection \<open>Reports and promises\<close>

lemma reported_append: "reported k (es @ fs) \<longleftrightarrow> reported k es \<or> reported k fs"
  by (auto simp: reported_def list_ex_iff)

lemma promising_Cons:
  "promising g n k (u # st) \<longleftrightarrow> (\<exists>c. extends g n u c \<and> card (set c) \<le> k) \<or> promising g n k st"
  by (auto simp: promising_def)

lemma promising_append:
  "promising g n k (xs @ ys) \<longleftrightarrow> promising g n k xs \<or> promising g n k ys"
  by (auto simp: promising_def)

subsection \<open>The seed loop\<close>

lemma level_pop: "level (u # rest) \<Longrightarrow> level rest"
proof (cases rest)
  case Nil
  then show ?thesis by (simp add: level_def)
next
  case (Cons v more)
  assume "level (u # rest)"
  with Cons show ?thesis by (auto simp: level_def)
qed

lemma level_push:
  assumes l: "level (u # rest)" and ch: "\<forall>c\<in>set tmp. next c = next u + 1"
  shows "level (rest @ tmp)"
proof -
  from l have sr: "sorted (map next rest)" and lo: "\<forall>v\<in>set rest. next u \<le> next v"
    and hi: "\<forall>v\<in>set rest. next v \<le> next u + 1"
    by (auto simp: level_def)
  have st: "sorted (map next tmp)"
    using ch by (simp add: sorted_wrt_iff_nth_less sorted_map)
  have s: "sorted (map next (rest @ tmp))"
    using sr st hi ch by (auto simp: sorted_append)
  have "\<forall>v\<in>set (rest @ tmp). next v \<le> next (hd (rest @ tmp)) + 1"
  proof (cases rest)
    case Nil
    then show ?thesis using ch by (cases tmp) auto
  next
    case (Cons r more)
    with lo have "next u \<le> next r" by simp
    with Cons hi ch show ?thesis by auto
  qed
  with s show ?thesis by (simp add: level_def)
qed

lemma level_final:
  assumes "level (u # rest)" "next u = n" "\<forall>v\<in>set rest. valid g n v"
  shows "\<forall>v\<in>set rest. next v = n"
proof
  fix v assume v: "v \<in> set rest"
  with assms(1) have "next u \<le> next v" by (auto simp: level_def)
  moreover from v assms(3) have "next v \<le> n" by (simp add: valid_def)
  ultimately show "next v = n" using assms(2) by simp
qed

lemma seed_iteration_spec:
  "seed_iteration (spec_solution g n) sizeP u s =
     (if next u \<noteq> n then
        if tot_colors u \<ge> colors_ub s then (Continue, s)
        else if length (initial_q s) + length (expand g (colors_ub s) u) \<le> sizeP - 1
             then (Continue, s\<lparr>initial_q := initial_q s @ expand g (colors_ub s) u\<rparr>)
             else (Break, s\<lparr>initial_q := initial_q s @ [u]\<rparr>)
      else if tot_colors u < colors_ub s
      then (Continue, s\<lparr>colors_ub := tot_colors u, best_so_far := u,
                        stdout := stdout s @ [PrintSolution u]\<rparr>)
      else (Continue, s))"
  by (simp add: seed_iteration_def spec_solution_def Let_def)

lemma seed_inv_step:
  assumes inv: "seed_inv g n k sizeP s" and q: "initial_q s = u # rest" and kn: "k \<le> n"
    and it: "seed_iteration (spec_solution g n) sizeP u (s\<lparr>initial_q := rest\<rparr>) = (f, t)"
  shows "(f = Continue \<longrightarrow> seed_inv g n k sizeP t) \<and> (f = Break \<longrightarrow> ready g n k sizeP t)"
proof -
  from inv q have vu: "valid g n u" and vr: "\<forall>v\<in>set rest. valid g n v"
    and lv: "level (u # rest)" and len: "Suc (length rest) \<le> sizeP - 1"
    by (simp_all add: seed_inv_def)
  from lv have lr: "level rest" by (rule level_pop)
  from vu have le: "next u \<le> n" by (simp add: valid_def)
  from inv q have bound: "colors_ub s = n + 1 \<or>
      (next u = n \<and> (\<forall>v\<in>set rest. next v = n) \<and> incumbent g n (colors_ub s) (best_so_far s))"
    by (auto simp: seed_inv_def)
  from inv q have pr: "(\<exists>c. extends g n u c \<and> card (set c) \<le> k) \<or> promising g n k rest \<or>
      colors_ub s \<le> k"
    by (auto simp: seed_inv_def promising_Cons)
  have here: "tot_colors u \<le> k" if "extends g n u c" "card (set c) \<le> k" for c
    using tot_le_card[OF vu that(1)] that(2) by simp
  consider (pruned) "next u \<noteq> n" "tot_colors u \<ge> colors_ub s"
    | (fits) "next u \<noteq> n" "\<not> tot_colors u \<ge> colors_ub s"
        "length rest + length (expand g (colors_ub s) u) \<le> sizeP - 1"
    | (full) "next u \<noteq> n" "\<not> tot_colors u \<ge> colors_ub s"
        "\<not> length rest + length (expand g (colors_ub s) u) \<le> sizeP - 1"
    | (improved) "next u = n" "tot_colors u < colors_ub s"
    | (ignored) "next u = n" "\<not> tot_colors u < colors_ub s"
    by blast
  then show ?thesis
  proof cases
    case pruned
    with it have ft: "f = Continue" "t = s\<lparr>initial_q := rest\<rparr>"
      by (simp_all add: seed_iteration_spec)
    from pruned bound have ub: "colors_ub s = n + 1" by simp
    have "promising g n k rest"
    proof -
      from pr consider c where "extends g n u c" "card (set c) \<le> k"
        | "promising g n k rest" | "colors_ub s \<le> k" by blast
      then show ?thesis
      proof cases
        case 1
        from here[OF 1] pruned ub kn show ?thesis by simp
      next
        case 2 then show ?thesis .
      next
        case 3 with ub kn show ?thesis by simp
      qed
    qed
    with ft ub vr lr len show ?thesis by (simp add: seed_inv_def)
  next
    case fits
    with it have ft: "f = Continue" "t = s\<lparr>initial_q := rest @ expand g (colors_ub s) u\<rparr>"
      by (simp_all add: seed_iteration_spec)
    from fits bound have ub: "colors_ub s = n + 1" by simp
    from fits le have lt: "next u < n" by simp
    have vch: "\<forall>ch\<in>set (expand g (colors_ub s) u). valid g n ch"
      using valid_expand[OF vu lt] by blast
    have nch: "\<forall>ch\<in>set (expand g (colors_ub s) u). next ch = next u + 1"
      using next_expand by blast
    have lvl: "level (rest @ expand g (colors_ub s) u)"
      by (rule level_push[OF lv nch])
    have "promising g n k (rest @ expand g (colors_ub s) u)"
    proof -
      from pr consider c where "extends g n u c" "card (set c) \<le> k"
        | "promising g n k rest" | "colors_ub s \<le> k" by blast
      then show ?thesis
      proof cases
        case 1
        from 1(2) kn ub have "card (set c) < colors_ub s" by simp
        from expand_keeps_extension[OF vu lt 1(1) this]
        obtain ch c' where ch: "ch \<in> set (expand g (colors_ub s) u)"
          and c': "extends g n ch c'" "card (set c') = card (set c)" by blast
        from c' 1(2) have "extends g n ch c' \<and> card (set c') \<le> k" by simp
        then have "\<exists>c. extends g n ch c \<and> card (set c) \<le> k" ..
        with ch have "promising g n k (expand g (colors_ub s) u)"
          unfolding promising_def ..
        then show ?thesis by (simp add: promising_append)
      next
        case 2 then show ?thesis by (simp add: promising_append)
      next
        case 3 with ub kn show ?thesis by simp
      qed
    qed
    with ft ub vr vch lvl fits(3) show ?thesis by (auto simp: seed_inv_def)
  next
    case full
    with it have ft: "f = Break" "t = s\<lparr>initial_q := rest @ [u]\<rparr>"
      by (simp_all add: seed_iteration_spec)
    from full bound have ub: "colors_ub s = n + 1" by simp
    from pr ub kn have "promising g n k (u # rest)" by (auto simp: promising_Cons)
    then have "promising g n k (rest @ [u])" by (auto simp: promising_def)
    with ft ub vu vr len show ?thesis by (auto simp: ready_def)
  next
    case improved
    with it have ft: "f = Continue"
      "t = s\<lparr>initial_q := rest, colors_ub := tot_colors u, best_so_far := u,
            stdout := stdout s @ [PrintSolution u]\<rparr>"
      by (simp_all add: seed_iteration_spec)
    have allfinal: "\<forall>v\<in>set rest. next v = n"
      by (rule level_final[OF lv improved(1) vr])
    have inc: "incumbent g n (tot_colors u) u"
      using vu improved(1) by (simp add: incumbent_def)
    have "promising g n k rest \<or> tot_colors u \<le> k"
    proof -
      from pr consider c where "extends g n u c" "card (set c) \<le> k"
        | "promising g n k rest" | "colors_ub s \<le> k" by blast
      then show ?thesis
      proof cases
        case 1 from here[OF 1] show ?thesis ..
      next
        case 2 then show ?thesis ..
      next
        case 3 with improved(2) show ?thesis by simp
      qed
    qed
    with ft vr lr len allfinal inc show ?thesis by (simp add: seed_inv_def)
  next
    case ignored
    with it have ft: "f = Continue" "t = s\<lparr>initial_q := rest\<rparr>"
      by (simp_all add: seed_iteration_spec)
    have allfinal: "\<forall>v\<in>set rest. next v = n"
      by (rule level_final[OF lv ignored(1) vr])
    have "promising g n k rest \<or> colors_ub s \<le> k"
    proof -
      from pr consider c where "extends g n u c" "card (set c) \<le> k"
        | "promising g n k rest" | "colors_ub s \<le> k" by blast
      then show ?thesis
      proof cases
        case 1 from here[OF 1] ignored(2) show ?thesis by simp
      next
        case 2 then show ?thesis ..
      next
        case 3 then show ?thesis ..
      qed
    qed
    moreover from bound allfinal have "colors_ub s = n + 1 \<or>
      ((\<forall>v\<in>set rest. next v = n) \<and> incumbent g n (colors_ub s) (best_so_far s))" by blast
    ultimately show ?thesis using ft vr lr len by (simp add: seed_inv_def)
  qed
qed

lemma seed_loop_invariant:
  "seed_loop cls sizeP s = Some s' \<Longrightarrow> cls = spec_solution g n \<Longrightarrow> k \<le> n \<Longrightarrow>
   seed_inv g n k sizeP s \<Longrightarrow>
   (initial_q s' = [] \<longrightarrow> incumbent g n (colors_ub s') (best_so_far s') \<and> colors_ub s' \<le> k) \<and>
   (initial_q s' \<noteq> [] \<longrightarrow> ready g n k sizeP s')"
proof (induction rule: seed_loop.raw_induct[rotated 1, consumes 1])
  case (1 loop cls sizeP s s')
  show ?case
  proof (cases "initial_q s")
    case Nil
    with 1(2) have eq: "s' = s" by simp
    from 1(5) Nil have "colors_ub s \<le> k" by (simp add: seed_inv_def promising_def)
    moreover with 1(4,5) have "incumbent g n (colors_ub s) (best_so_far s)"
      by (auto simp: seed_inv_def)
    ultimately show ?thesis using eq Nil by simp
  next
    case (Cons u rest)
    obtain f t where it: "seed_iteration cls sizeP u (s\<lparr>initial_q := rest\<rparr>) = (f, t)"
      by (cases "seed_iteration cls sizeP u (s\<lparr>initial_q := rest\<rparr>)")
    from seed_inv_step[OF 1(5) Cons 1(4) it[unfolded 1(3)]]
    have step: "f = Continue \<longrightarrow> seed_inv g n k sizeP t" "f = Break \<longrightarrow> ready g n k sizeP t"
      by simp_all
    show ?thesis
    proof (cases f)
      case Continue
      with 1(2) Cons it have "loop cls sizeP t = Some s'" by simp
      from 1(1)[OF this 1(3) 1(4)] step(1) Continue show ?thesis by simp
    next
      case Break
      with 1(2) Cons it have "s' = t" by simp
      with step(2) Break show ?thesis by (simp add: ready_def)
    qed
  qed
qed

lemma sum_list_const:
  "\<forall>x\<in>set xs. f x = (c :: nat) \<Longrightarrow> sum_list (map f xs) = length xs * c"
  by (induction xs) simp_all

lemma seed_loop_halts:
  "\<forall>u\<in>set (initial_q s). next u \<le> n \<Longrightarrow>
   \<exists>s'. seed_loop (spec_solution g n) sizeP s = Some s'"
proof (induction "sum_list (map (\<lambda>u. (sizeP + 1) ^ (n - next u)) (initial_q s))"
    arbitrary: s rule: less_induct)
  case less
  let ?wt = "\<lambda>u. (sizeP + 1) ^ (n - next u)"
  show ?case
  proof (cases "initial_q s")
    case Nil
    then show ?thesis by (subst seed_loop.simps) simp
  next
    case (Cons u rest)
    from less.prems Cons have le: "next u \<le> n" and rest: "\<forall>v\<in>set rest. next v \<le> n"
      by simp_all
    have pos: "0 < ?wt u" by simp
    obtain f t where it: "seed_iteration (spec_solution g n) sizeP u (s\<lparr>initial_q := rest\<rparr>)
        = (f, t)"
      by (cases "seed_iteration (spec_solution g n) sizeP u (s\<lparr>initial_q := rest\<rparr>)")
    show ?thesis
    proof (cases f)
      case Break
      with it Cons show ?thesis by (subst seed_loop.simps) simp
    next
      case Continue
      have unfold: "seed_loop (spec_solution g n) sizeP s = seed_loop (spec_solution g n) sizeP t"
        using it Cons Continue by (subst seed_loop.simps) simp
      have "sum_list (map ?wt (initial_q t)) < sum_list (map ?wt (initial_q s)) \<and>
            (\<forall>v\<in>set (initial_q t). next v \<le> n)"
      proof (cases "initial_q t = rest")
        case True
        with Cons pos rest show ?thesis by simp
      next
        case False
        with it Continue have grown: "next u \<noteq> n"
          "length rest + length (expand g (colors_ub s) u) \<le> sizeP - 1"
          "initial_q t = rest @ expand g (colors_ub s) u"
          by (auto simp: seed_iteration_spec split: if_splits)
        let ?tmp = "expand g (colors_ub s) u"
        from grown(1) le have lt: "next u < n" by simp
        have nch: "\<forall>ch\<in>set ?tmp. next ch = next u + 1" using next_expand by blast
        then have "\<forall>ch\<in>set ?tmp. ?wt ch = (sizeP + 1) ^ (n - next u - 1)" by simp
        then have "sum_list (map ?wt ?tmp) = length ?tmp * (sizeP + 1) ^ (n - next u - 1)"
          by (rule sum_list_const)
        also have "\<dots> < (sizeP + 1) * (sizeP + 1) ^ (n - next u - 1)"
          using grown(2) by (intro mult_strict_right_mono) simp_all
        also have "\<dots> = ?wt u"
          using lt by (metis Suc_diff_Suc diff_Suc_eq_diff_pred minus_nat.diff_0 power_Suc
              Suc_pred zero_less_diff)
        finally have "sum_list (map ?wt ?tmp) < ?wt u" .
        moreover from nch lt have "\<forall>ch\<in>set ?tmp. next ch \<le> n" by simp
        ultimately show ?thesis using grown(3) Cons rest by auto
      qed
      then have "\<exists>s'. seed_loop (spec_solution g n) sizeP t = Some s'"
        using less.hyps[of t] by blast
      with unfold show ?thesis by simp
    qed
  qed
qed

subsection \<open>The listener of rank 0\<close>

lemma on_message_ub:
  "colors_ub (on_message msg a) \<le> colors_ub a \<and>
   (tag msg = SOLUTION_FROM_WORKER \<longrightarrow> colors_ub (on_message msg a) \<le> tot_colors (body msg))"
  by (auto simp: on_message_def Let_def)

lemma on_message_inv:
  assumes inv: "aggregator_inv g n a"
    and ok: "tag msg = SOLUTION_FROM_WORKER \<longrightarrow> valid g n (body msg) \<and> next (body msg) = n"
  shows "aggregator_inv g n (on_message msg a)"
proof (cases "tag msg = SOLUTION_FROM_WORKER \<and> tot_colors (body msg) < colors_ub a")
  case True
  then have eq: "on_message msg a =
      a\<lparr>colors_ub := tot_colors (body msg), best := body msg,
        stdout := stdout a @ [WorkerSentSolution (peer msg) (body msg)],
        broadcasts := broadcasts a @ [tot_colors (body msg)]\<rparr>"
    by (simp add: on_message_def Let_def SOLUTION_FROM_WORKER_def RETURN_def)
  from True ok have "incumbent g n (tot_colors (body msg)) (body msg)"
    by (simp add: incumbent_def)
  moreover from inv True
  have "\<forall>v\<in>set (broadcasts a). v \<noteq> RETURN \<longrightarrow> tot_colors (body msg) \<le> v"
    by (auto simp: aggregator_inv_def)
  ultimately show ?thesis unfolding eq by (simp add: aggregator_inv_def)
next
  case False
  then have "colors_ub (on_message msg a) = colors_ub a" "best (on_message msg a) = best a"
    "broadcasts (on_message msg a) = broadcasts a"
    by (auto simp: on_message_def Let_def)
  with inv show ?thesis by (simp add: aggregator_inv_def)
qed

subsection \<open>The dispatch\<close>

text \<open>
  A complete valid node in at most \<open>\<chi>(G)\<close> colours is optimal; and the dispatch sends
  every worker one message, the nodes of the queue to the first ranks, one each.
\<close>

lemma incumbent_optimal:
  assumes wf: "well_formed_graph n g" and inc: "incumbent g n ub b"
    and le: "ub \<le> chromatic_number g n"
  shows "optimal g n b"
proof -
  from inc have v: "valid g n b" and fin: "next b = n" and t: "tot_colors b = ub"
    by (simp_all add: incumbent_def)
  from wf have sym: "symmetric n g" and irr: "irreflexive n g"
    by (simp_all add: well_formed_graph_def)
  note p = final_is_proper[OF v fin sym irr]
  from chromatic_le[OF p(1)] p(2) t le have "tot_colors b = chromatic_number g n" by simp
  with p fin show ?thesis by (simp add: optimal_def)
qed

lemma dispatch_nodes_bodies:
  "e \<in> set (dispatch_nodes q i) \<Longrightarrow> tag e = INITIAL_NODE \<and> body e \<in> set q"
  by (induction q i rule: dispatch_nodes.induct) auto

lemma dispatch_idle_tags: "e \<in> set (dispatch_idle d i sizeP) \<Longrightarrow> tag e \<noteq> INITIAL_NODE"
  by (auto simp: dispatch_idle_def INITIAL_NODE_def)

lemma find_in_set: "find P xs = Some x \<Longrightarrow> x \<in> set xs \<and> P x"
  by (induction xs) (auto split: if_splits)

lemma find_dispatch_nodes:
  "u \<in> set q \<Longrightarrow>
   \<exists>rank. i \<le> rank \<and> rank < i + length q \<and>
     find (\<lambda>e. peer e = rank) (dispatch_nodes q i @ rest)
       = Some \<lparr>body = u, peer = rank, tag = INITIAL_NODE\<rparr>"
proof (induction q arbitrary: i)
  case Nil
  then show ?case by simp
next
  case (Cons v q)
  show ?case
  proof (cases "u = v")
    case True
    have "i \<le> i \<and> i < i + length (v # q) \<and>
      find (\<lambda>e. peer e = i) (dispatch_nodes (v # q) i @ rest)
        = Some \<lparr>body = u, peer = i, tag = INITIAL_NODE\<rparr>"
      using True by simp
    then show ?thesis by blast
  next
    case False
    with Cons.prems have "u \<in> set q" by simp
    from Cons.IH[OF this, of "i + 1"] obtain rank where r: "i + 1 \<le> rank"
      "rank < i + 1 + length q"
      "find (\<lambda>e. peer e = rank) (dispatch_nodes q (i + 1) @ rest)
         = Some \<lparr>body = u, peer = rank, tag = INITIAL_NODE\<rparr>" by blast
    then have "i \<le> rank \<and> rank < i + length (v # q) \<and>
      find (\<lambda>e. peer e = rank) (dispatch_nodes (v # q) i @ rest)
        = Some \<lparr>body = u, peer = rank, tag = INITIAL_NODE\<rparr>"
      by simp
    then show ?thesis by blast
  qed
qed

lemma peers_dispatch_nodes: "peer ` set (dispatch_nodes q i) = {i..<i + length q}"
  by (induction q i rule: dispatch_nodes.induct) auto

lemma peers_dispatch_idle: "peer ` set (dispatch_idle d i sizeP) = {i..<sizeP}"
  by (auto simp: dispatch_idle_def image_iff)

lemma dispatch_covers:
  assumes "length q \<le> sizeP - 1"
  shows "mail_covers sizeP (dispatch_nodes q 1 @ dispatch_idle d (1 + length q) sizeP)"
  unfolding mail_covers_def
proof (intro allI impI)
  fix rank assume rank: "1 \<le> rank \<and> rank < sizeP"
  let ?mail = "dispatch_nodes q 1 @ dispatch_idle d (1 + length q) sizeP"
  have "peer ` set ?mail = {1..<1 + length q} \<union> {1 + length q..<sizeP}"
    by (simp add: image_Un peers_dispatch_nodes peers_dispatch_idle)
  also have "\<dots> = {1..<sizeP}" using assms by auto
  finally have "rank \<in> peer ` set ?mail" using rank by simp
  then show "find (\<lambda>e. peer e = rank) ?mail \<noteq> None"
    by (auto simp: find_None_iff)
qed

lemma dispatch_mail_ok:
  assumes "\<forall>u\<in>set q. valid g n u"
  shows "mail_ok g n (dispatch_nodes q 1 @ dispatch_idle d (1 + length q) sizeP)"
  unfolding mail_ok_def
  using assms dispatch_nodes_bodies dispatch_idle_tags by fastforce

subsection \<open>One step of a worker\<close>

text \<open>
  Each step of either thread of a worker keeps what the worker keeps true, and a step of
  the main thread keeps a solution in at most \<open>k\<close> colours known or within reach.
\<close>

lemma spec_fields:
  "is_final (spec_solution g n) u = (next u = n)"
  "get_next (spec_solution g n) = expand g"
  "default_solution (spec_solution g n) = empty_solution n"
  "initial_ub (spec_solution g n) = n + 1"
  by (simp_all add: spec_solution_def)

lemma nodes_ok_main_step:
  assumes inv: "nodes_ok g n mail rank w" and mail: "mail_ok g n mail"
    and st: "main_step (spec_solution g n) rank mail w = Some w'"
  shows "nodes_ok g n mail rank w'"
proof (cases "main_at w")
  case AwaitInitial
  with st obtain init where f: "find (\<lambda>e. peer e = rank) mail = Some init"
    by (auto simp: main_step_def split: option.splits)
  from find_in_set[OF f] mail have "tag init = INITIAL_NODE \<longrightarrow> valid g n (body init)"
    by (simp add: mail_ok_def)
  with st AwaitInitial f inv show ?thesis
    by (auto simp: main_step_def nodes_ok_def pending_def at_ok_def split: if_splits)
next
  case LoopHead
  with st inv show ?thesis
    by (auto simp: main_step_def nodes_ok_def pending_def at_ok_def spec_fields
        split: list.splits if_splits)
next
  case (PruneTest u)
  with st inv show ?thesis
    by (auto simp: main_step_def nodes_ok_def pending_def at_ok_def split: if_splits)
next
  case (GetNext u)
  with inv have vu: "valid g n u" and ne: "next u \<noteq> n"
    by (simp_all add: nodes_ok_def pending_def at_ok_def)
  then have lt: "next u < n" by (simp add: valid_def)
  have "\<forall>ch\<in>set (expand g (colors_ub w) u). valid g n ch"
    using valid_expand[OF vu lt] by blast
  with st GetNext inv show ?thesis
    by (auto simp: main_step_def nodes_ok_def pending_def at_ok_def spec_fields)
next
  case (ImproveTest u)
  with st inv show ?thesis
    by (auto simp: main_step_def nodes_ok_def pending_def at_ok_def split: if_splits)
next
  case (StoreBound u)
  with st inv show ?thesis
    by (auto simp: main_step_def nodes_ok_def pending_def at_ok_def)
next
  case SendBest
  with st inv show ?thesis
    by (auto simp: main_step_def nodes_ok_def pending_def at_ok_def sound_reports_def)
next
  case SendReturn
  with st inv show ?thesis
    by (auto simp: main_step_def nodes_ok_def pending_def at_ok_def sound_reports_def
        RETURN_def SOLUTION_FROM_WORKER_def)
next
  case AtBarrier
  with st show ?thesis by (simp add: main_step_def)
qed

lemma listener_step_frame:
  "listener_step rank bcasts w = Some w' \<Longrightarrow>
   main_at w' = main_at w \<and> dfs_stack w' = dfs_stack w \<and> sends w' = sends w \<and>
   best_so_far w' = best_so_far w"
  by (auto simp: listener_step_def split: listener_line.splits if_splits)

lemma pending_listener_step:
  "listener_step rank' bcasts w = Some w' \<Longrightarrow> pending mail rank w' = pending mail rank w"
  by (drule listener_step_frame) (auto simp: pending_def split: main_line.splits)

lemma nodes_ok_listener_step:
  "nodes_ok g n mail rank w \<Longrightarrow> listener_step rank' bcasts w = Some w' \<Longrightarrow>
   nodes_ok g n mail rank w'"
  by (frule listener_step_frame)
     (auto simp: nodes_ok_def pending_def at_ok_def split: main_line.splits)

lemma return_last_listener_step:
  "return_last w \<Longrightarrow> listener_step rank bcasts w = Some w' \<Longrightarrow> return_last w'"
  by (frule listener_step_frame) (simp add: return_last_def)

lemma main_step_frame:
  "main_step cls rank mail w = Some w' \<Longrightarrow>
   bcasts_seen w' = bcasts_seen w \<and> main_at w' \<noteq> AwaitInitial \<and>
   (listener_at w' = listener_at w \<or> (main_at w = AwaitInitial \<and> listener_at w' = InBcast))"
  by (auto simp: main_step_def split: main_line.splits option.splits list.splits if_splits)

lemma hears_ok_main_step:
  "hears_ok bcasts w \<Longrightarrow> main_step cls rank mail w = Some w' \<Longrightarrow> hears_ok bcasts w'"
  by (frule main_step_frame) (auto simp: hears_ok_def)

lemma hears_ok_listener_step:
  "hears_ok bcasts w \<Longrightarrow> listener_step rank bcasts w = Some w' \<Longrightarrow> hears_ok bcasts w'"
  by (frule listener_step_frame)
     (auto simp: hears_ok_def listener_step_def split: listener_line.splits if_splits)

lemma hears_ok_append: "hears_ok bcasts w \<Longrightarrow> hears_ok (bcasts @ later) w"
  by (auto simp: hears_ok_def split: listener_line.splits)

lemma known_append: "known k bcasts w \<Longrightarrow> known k (bcasts @ later) w"
  by (auto simp: known_def heard_def)

lemma bound_ok_append: "bound_ok k bcasts w \<Longrightarrow> bound_ok k (bcasts @ later) w"
  by (auto simp: bound_ok_def dest: known_append)

lemma bound_ok_main_step:
  "bound_ok k bcasts w \<Longrightarrow> main_step cls rank mail w = Some w' \<Longrightarrow> bound_ok k bcasts w'"
  by (cases "main_at w")
     (auto simp: main_step_def bound_ok_def known_def reported_append reported_def
       split: option.splits list.splits if_splits)

lemma known_main_step:
  "known k bcasts w \<Longrightarrow> main_step cls rank mail w = Some w' \<Longrightarrow> known k bcasts w'"
  by (cases "main_at w")
     (auto simp: main_step_def known_def reported_append reported_def
       split: option.splits list.splits if_splits)

lemma known_listener_step:
  "known k bcasts w \<Longrightarrow> listener_step rank bcasts w = Some w' \<Longrightarrow> known k bcasts w'"
  by (frule listener_step_frame) (simp add: known_def)

lemma bound_ok_listener_step:
  "bound_ok k bcasts w \<Longrightarrow> hears_ok bcasts w \<Longrightarrow> listener_step rank bcasts w = Some w' \<Longrightarrow>
   bound_ok k bcasts w'"
  by (frule listener_step_frame)
     (auto simp: listener_step_def bound_ok_def known_def hears_ok_def heard_def
       split: listener_line.splits if_splits)

lemma return_last_main_step:
  "return_last w \<Longrightarrow> main_step cls rank mail w = Some w' \<Longrightarrow> return_last w'"
  by (cases "main_at w")
     (auto simp: main_step_def return_last_def SOLUTION_FROM_WORKER_def RETURN_def
       split: option.splits list.splits if_splits)

lemma promise_main_step:
  assumes nodes: "nodes_ok g n mail rank w" and bound: "bound_ok k bcasts w"
    and st: "main_step (spec_solution g n) rank mail w = Some w'"
    and pr: "known k bcasts w \<or> promising g n k (pending mail rank w)"
  shows "known k bcasts w' \<or> promising g n k (pending mail rank w')"
proof (cases "known k bcasts w")
  case True
  from known_main_step[OF this st] show ?thesis ..
next
  case False
  with pr have prom: "promising g n k (pending mail rank w)" by simp
  from False bound have ub: "k < colors_ub w" by (auto simp: bound_ok_def)
  show ?thesis
  proof (cases "main_at w")
    case AwaitInitial
    with st prom show ?thesis
      by (auto simp: main_step_def pending_def promising_def split: option.splits if_splits)
  next
    case LoopHead
    with st prom show ?thesis
      by (auto simp: main_step_def pending_def split: list.splits if_splits)
  next
    case (PruneTest u)
    from nodes PruneTest have vu: "valid g n u" by (simp add: nodes_ok_def pending_def)
    from prom PruneTest
    consider c where "extends g n u c" "card (set c) \<le> k" | "promising g n k (dfs_stack w)"
      by (auto simp: pending_def promising_Cons)
    then show ?thesis
    proof cases
      case 1
      from tot_le_card[OF vu 1(1)] 1(2) ub have "tot_colors u < colors_ub w" by simp
      with st PruneTest prom show ?thesis by (auto simp: main_step_def pending_def)
    next
      case 2
      with st PruneTest show ?thesis
        by (auto simp: main_step_def pending_def promising_Cons)
    qed
  next
    case (GetNext u)
    from nodes GetNext have vu: "valid g n u" and ne: "next u \<noteq> n"
      by (simp_all add: nodes_ok_def pending_def at_ok_def)
    then have lt: "next u < n" by (simp add: valid_def)
    from st GetNext have p': "pending mail rank w' = expand g (colors_ub w) u @ dfs_stack w"
      by (auto simp: main_step_def pending_def spec_fields)
    from prom GetNext
    consider c where "extends g n u c" "card (set c) \<le> k" | "promising g n k (dfs_stack w)"
      by (auto simp: pending_def promising_Cons)
    then show ?thesis
    proof cases
      case 1
      from 1(2) ub have "card (set c) < colors_ub w" by simp
      from expand_keeps_extension[OF vu lt 1(1) this]
      obtain ch c' where ch: "ch \<in> set (expand g (colors_ub w) u)"
        and c': "extends g n ch c'" "card (set c') = card (set c)" by blast
      from c' 1(2) have "extends g n ch c' \<and> card (set c') \<le> k" by simp
      then have "\<exists>c. extends g n ch c \<and> card (set c) \<le> k" ..
      with ch have "promising g n k (expand g (colors_ub w) u)"
        unfolding promising_def ..
      then show ?thesis by (simp add: p' promising_append)
    next
      case 2
      then show ?thesis by (simp add: p' promising_append)
    qed
  next
    case (ImproveTest u)
    from nodes ImproveTest have vu: "valid g n u" by (simp add: nodes_ok_def pending_def)
    from prom ImproveTest
    consider c where "extends g n u c" "card (set c) \<le> k" | "promising g n k (dfs_stack w)"
      by (auto simp: pending_def promising_Cons)
    then show ?thesis
    proof cases
      case 1
      from tot_le_card[OF vu 1(1)] 1(2) ub have "tot_colors u < colors_ub w" by simp
      with st ImproveTest prom show ?thesis by (auto simp: main_step_def pending_def)
    next
      case 2
      with st ImproveTest show ?thesis
        by (auto simp: main_step_def pending_def promising_Cons)
    qed
  next
    case (StoreBound u)
    from nodes StoreBound have vu: "valid g n u" by (simp add: nodes_ok_def pending_def)
    from prom StoreBound
    consider c where "extends g n u c" "card (set c) \<le> k" | "promising g n k (dfs_stack w)"
      by (auto simp: pending_def promising_Cons)
    then show ?thesis
    proof cases
      case 1
      from tot_le_card[OF vu 1(1)] 1(2) have "tot_colors u \<le> k" by simp
      with st StoreBound show ?thesis by (auto simp: main_step_def known_def)
    next
      case 2
      with st StoreBound show ?thesis
        by (auto simp: main_step_def pending_def)
    qed
  next
    case SendBest
    with st prom show ?thesis by (auto simp: main_step_def pending_def)
  next
    case SendReturn
    with prom show ?thesis by (simp add: pending_def promising_def)
  next
    case AtBarrier
    with st show ?thesis by (simp add: main_step_def)
  qed
qed

lemma main_step_sends:
  "main_step cls rank mail w = Some w' \<Longrightarrow>
   sends w' = sends w \<or> (\<exists>m. sends w' = sends w @ [m])"
  by (cases "main_at w")
     (auto simp: main_step_def split: option.splits list.splits if_splits)

lemma main_step_barrier:
  "main_step cls rank mail w = Some w' \<Longrightarrow>
   main_at w \<noteq> AtBarrier \<and>
   (main_at w' = AtBarrier \<longrightarrow> length (sends w') = Suc (length (sends w)))"
  by (cases "main_at w")
     (auto simp: main_step_def split: option.splits list.splits if_splits)

lemma main_step_enabled:
  "main_at w \<noteq> AtBarrier \<Longrightarrow> find (\<lambda>e. peer e = rank) mail \<noteq> None \<Longrightarrow>
   \<exists>w'. main_step cls rank mail w = Some w'"
  by (cases "main_at w") (auto simp: main_step_def split: list.splits)

subsection \<open>Every step lowers the measure\<close>

text \<open>
  A valid node uses at most \<open>next\<close> colours, so it has at most \<open>n\<close> children, and
  they weigh less than the node by four steps at least.
\<close>

lemma node_weight_ge: "4 \<le> node_weight n u"
  by (simp add: node_weight_def)

lemma node_weight_le: "node_weight n u \<le> 4 * (n + 1) ^ n"
  by (simp add: node_weight_def power_increasing)

lemma stack_weight_simps [simp]:
  "stack_weight n [] = 0"
  "stack_weight n (u # st) = node_weight n u + stack_weight n st"
  "stack_weight n (xs @ ys) = stack_weight n xs + stack_weight n ys"
  by (simp_all add: stack_weight_def)

lemma tot_le_next:
  assumes "valid g n u"
  shows "tot_colors u \<le> next u"
proof -
  have "{1..tot_colors u} \<subseteq> (\<lambda>i. color u ! i) ` {..<next u}"
    using assms by (auto simp: valid_def image_iff)
  then have "card {1..tot_colors u} \<le> card ((\<lambda>i. color u ! i) ` {..<next u})"
    by (intro card_mono) simp_all
  also have "\<dots> \<le> card {..<next u}" by (rule card_image_le) simp
  finally show ?thesis by simp
qed

lemma length_expand: "length (expand g ub u) \<le> tot_colors u + 1"
proof -
  let ?reuse = "filter (\<lambda>c. c \<notin> set (forbidden g u)) [1..<tot_colors u + 1]"
  have "length ?reuse \<le> length [1..<tot_colors u + 1]" by (rule length_filter_le)
  then have a: "length ?reuse \<le> tot_colors u" by (simp only: length_upt)
  have "length (expand g ub u) \<le> length ?reuse + 1"
    unfolding expand_def Let_def by (simp only: length_append length_map) simp
  with a show ?thesis by linarith
qed

lemma stack_weight_expand:
  assumes v: "valid g n u" and lt: "next u < n"
  shows "stack_weight n (expand g ub u) + 4 \<le> node_weight n u"
proof -
  let ?d = "n - next u - 1"
  let ?tmp = "expand g ub u"
  have len: "length ?tmp \<le> n"
    using length_expand[of g ub u] tot_le_next[OF v] lt by simp
  have "\<forall>ch\<in>set ?tmp. node_weight n ch = 4 * (n + 1) ^ ?d"
    using next_expand[of _ g ub u] by (simp add: node_weight_def)
  then have "stack_weight n ?tmp = length ?tmp * (4 * (n + 1) ^ ?d)"
    unfolding stack_weight_def by (rule sum_list_const)
  also have "\<dots> \<le> n * (4 * (n + 1) ^ ?d)"
    using len by (rule mult_le_mono1)
  finally have a: "stack_weight n ?tmp \<le> n * (4 * (n + 1) ^ ?d)" .
  have "n - next u = Suc ?d" using lt by simp
  then have "node_weight n u = (n + 1) * (4 * (n + 1) ^ ?d)"
    by (simp add: node_weight_def)
  also have "\<dots> = n * (4 * (n + 1) ^ ?d) + 4 * (n + 1) ^ ?d" by (simp add: algebra_simps)
  finally have b: "node_weight n u = n * (4 * (n + 1) ^ ?d) + 4 * (n + 1) ^ ?d" .
  have "(1::nat) \<le> (n + 1) ^ ?d" by simp
  then have "(4::nat) \<le> 4 * (n + 1) ^ ?d" by simp
  with a b show ?thesis by linarith
qed

lemma main_measure_decreases:
  assumes nodes: "nodes_ok g n mail rank w"
    and st: "main_step (spec_solution g n) rank mail w = Some w'"
  shows "2 * main_measure n w' + length (sends w') < 2 * main_measure n w + length (sends w)"
proof (cases "main_at w")
  case AwaitInitial
  with st obtain init where f: "find (\<lambda>e. peer e = rank) mail = Some init"
    by (auto simp: main_step_def split: option.splits)
  have "node_weight n (body init) \<le> 4 * (n + 1) ^ n" by (rule node_weight_le)
  with st AwaitInitial f show ?thesis
    by (auto simp: main_step_def main_measure_def split: if_splits)
next
  case LoopHead
  with st show ?thesis
    by (auto simp: main_step_def main_measure_def split: list.splits if_splits)
next
  case (PruneTest u)
  with st node_weight_ge[of n u] show ?thesis
    by (auto simp: main_step_def main_measure_def split: if_splits)
next
  case (GetNext u)
  from nodes GetNext have vu: "valid g n u" and ne: "next u \<noteq> n"
    by (simp_all add: nodes_ok_def pending_def at_ok_def)
  then have lt: "next u < n" by (simp add: valid_def)
  from stack_weight_expand[OF vu lt, of "colors_ub w"] st GetNext show ?thesis
    by (auto simp: main_step_def main_measure_def spec_fields)
next
  case (ImproveTest u)
  with st node_weight_ge[of n u] show ?thesis
    by (auto simp: main_step_def main_measure_def split: if_splits)
next
  case (StoreBound u)
  with st node_weight_ge[of n u] show ?thesis
    by (auto simp: main_step_def main_measure_def)
next
  case SendBest
  with st show ?thesis by (auto simp: main_step_def main_measure_def)
next
  case SendReturn
  with st show ?thesis by (auto simp: main_step_def main_measure_def)
next
  case AtBarrier
  with st show ?thesis by (simp add: main_step_def)
qed

lemma listener_measure_main_step:
  "hears_ok bcasts w \<Longrightarrow> main_step cls rank mail w = Some w' \<Longrightarrow>
   listener_measure budget w' = listener_measure budget w"
  by (frule main_step_frame)
     (auto simp: listener_measure_def hears_ok_def split: listener_line.splits)

lemma listener_measure_decreases:
  "listener_step rank bcasts w = Some w' \<Longrightarrow> length bcasts \<le> budget \<Longrightarrow>
   listener_measure budget w' < listener_measure budget w"
  by (auto simp: listener_step_def listener_measure_def split: listener_line.splits if_splits)

lemma listener_measure_mono:
  "budget' \<le> budget \<Longrightarrow> listener_measure budget' w \<le> listener_measure budget w"
  by (auto simp: listener_measure_def split: listener_line.splits)

lemma main_measure_listener_step:
  "listener_step rank bcasts w = Some w' \<Longrightarrow> main_measure n w' = main_measure n w"
  by (drule listener_step_frame) (auto simp: main_measure_def split: main_line.splits)

lemma sum_decrease_one:
  fixes f g :: "nat \<Rightarrow> nat"
  assumes "finite A" "a \<in> A" "f a < g a" "\<And>x. x \<in> A \<Longrightarrow> x \<noteq> a \<Longrightarrow> f x \<le> g x"
  shows "sum f A < sum g A"
proof (rule sum_strict_mono_ex1[OF assms(1)])
  show "\<forall>x\<in>A. f x \<le> g x"
    using assms(3,4) by (metis less_imp_le)
  show "\<exists>a\<in>A. f a < g a" using assms(2,3) by blast
qed

subsection \<open>One step of the run\<close>

text \<open>
  Each step of a run, of whichever thread, keeps \<open>system_inv\<close> and lowers
  \<open>system_measure\<close>.
\<close>

lemma worker_ok_main_step:
  assumes ok: "worker_ok g n k mail a r rank w" and mail: "mail_ok g n mail"
    and st: "main_step (spec_solution g n) rank mail w = Some w'"
  shows "worker_ok g n k mail a r rank w'"
proof -
  from ok have r: "r \<le> length (sends w)" by (simp add: worker_ok_def)
  from main_step_sends[OF st] r
  have "r \<le> length (sends w')" "take r (sends w') = take r (sends w)" by auto
  with ok nodes_ok_main_step[OF _ mail st] hears_ok_main_step[OF _ st]
    bound_ok_main_step[OF _ st] return_last_main_step[OF _ st]
  show ?thesis by (simp add: worker_ok_def)
qed

lemma worker_ok_listener_step:
  assumes ok: "worker_ok g n k mail a r rank w"
    and st: "listener_step rank (broadcasts a) w = Some w'"
  shows "worker_ok g n k mail a r rank w'"
proof -
  from listener_step_frame[OF st] have "sends w' = sends w" by simp
  with ok nodes_ok_listener_step[OF _ st] hears_ok_listener_step[OF _ st]
    bound_ok_listener_step[OF _ _ st] return_last_listener_step[OF _ st]
  show ?thesis by (simp add: worker_ok_def)
qed

lemma worker_ok_rank0:
  assumes ok: "worker_ok g n k mail a r rank w"
    and bc: "broadcasts a' = broadcasts a @ later" and ub: "colors_ub a' \<le> colors_ub a"
  shows "worker_ok g n k mail a' r rank w"
  using ok ub unfolding worker_ok_def bc
  by (auto intro: hears_ok_append bound_ok_append)

lemma worker_ok_received:
  assumes ok: "worker_ok g n k mail a r rank w" and lt: "r < length (sends w)"
    and new: "tag (sends w ! r) = SOLUTION_FROM_WORKER \<longrightarrow>
              colors_ub a \<le> tot_colors (body (sends w ! r))"
  shows "worker_ok g n k mail a (r + 1) rank w"
  using ok lt new by (auto simp: worker_ok_def take_Suc_conv_app_nth)

lemma on_message_broadcasts: "\<exists>later. broadcasts (on_message msg a) = broadcasts a @ later"
  by (simp add: on_message_def Let_def)

lemma on_message_budget:
  "length (broadcasts (on_message msg a)) + colors_ub (on_message msg a)
   \<le> length (broadcasts a) + colors_ub a"
  by (auto simp: on_message_def Let_def)

lemma stamped_simps [simp]:
  "tag (stamped rank m) = tag m" "body (stamped rank m) = body m"
  by (simp_all add: stamped_def)

lemma finite_finished [simp]: "finite (finished_workers sizeP t)"
  by (rule finite_subset[of _ "{1..<sizeP}"]) (auto simp: finished_workers_def)

lemma finished_subset: "finished_workers sizeP t \<subseteq> {1..<sizeP}"
  by (auto simp: finished_workers_def)

lemma return_is_last:
  assumes "return_last w" "r < length (sends w)"
  shows "tag (sends w ! r) = RETURN \<longleftrightarrow> main_at w = AtBarrier \<and> r + 1 = length (sends w)"
proof (cases "main_at w = AtBarrier")
  case False
  with assms show ?thesis by (auto simp: return_last_def)
next
  case True
  with assms(1) have ne: "sends w \<noteq> []" and l: "tag (last (sends w)) = RETURN"
    and b: "\<forall>m\<in>set (butlast (sends w)). tag m \<noteq> RETURN"
    by (simp_all add: return_last_def)
  show ?thesis
  proof (cases "r + 1 = length (sends w)")
    case eq: True
    then have "r = length (sends w) - 1" by simp
    with last_conv_nth[OF ne] have "sends w ! r = last (sends w)" by simp
    with l eq True show ?thesis by simp
  next
    case neq: False
    with assms(2) have "r < length (butlast (sends w))" by simp
    then have "butlast (sends w) ! r \<in> set (butlast (sends w))" by (rule nth_mem)
    moreover have "butlast (sends w) ! r = sends w ! r"
      using \<open>r < length (butlast (sends w))\<close> by (simp add: nth_butlast)
    ultimately show ?thesis using b neq by auto
  qed
qed

lemma system_invI:
  assumes "\<And>rank. 1 \<le> rank \<Longrightarrow> rank < sizeP \<Longrightarrow>
         worker_ok g n k mail (rank0 t) (received t rank) rank (workers t rank)"
    and "aggregator_inv g n (rank0 t)"
    and "worker_done (rank0 t) = card (finished_workers sizeP t)"
    and "colors_ub (rank0 t) \<le> k \<or> known k (broadcasts (rank0 t)) (workers t lucky) \<or>
         promising g n k (pending mail lucky (workers t lucky))"
    and "rank0_returned t \<Longrightarrow> sizeP - 1 \<le> worker_done (rank0 t)"
    and "rank0_returned t \<Longrightarrow> last (stdout (rank0 t)) = FinalOptimalSolution (best (rank0 t))"
  shows "system_inv g n k sizeP mail lucky t"
  unfolding system_inv_def using assms by blast

lemma system_invD:
  assumes "system_inv g n k sizeP mail lucky t"
  shows "\<And>rank. 1 \<le> rank \<Longrightarrow> rank < sizeP \<Longrightarrow>
         worker_ok g n k mail (rank0 t) (received t rank) rank (workers t rank)"
    and "aggregator_inv g n (rank0 t)"
    and "worker_done (rank0 t) = card (finished_workers sizeP t)"
    and "colors_ub (rank0 t) \<le> k \<or> known k (broadcasts (rank0 t)) (workers t lucky) \<or>
         promising g n k (pending mail lucky (workers t lucky))"
    and "rank0_returned t \<Longrightarrow> sizeP - 1 \<le> worker_done (rank0 t)"
    and "rank0_returned t \<Longrightarrow> last (stdout (rank0 t)) = FinalOptimalSolution (best (rank0 t))"
  using assms unfolding system_inv_def by blast+

lemma worker_main_step_invariant:
  assumes inv: "system_inv g n k sizeP mail lucky t" and mail: "mail_ok g n mail"
    and rank: "1 \<le> rank" "rank < sizeP"
    and st: "main_step (spec_solution g n) rank mail (workers t rank) = Some w'"
  shows "system_inv g n k sizeP mail lucky (t\<lparr>workers := (workers t)(rank := w')\<rparr>) \<and>
         system_measure n sizeP (t\<lparr>workers := (workers t)(rank := w')\<rparr>)
           < system_measure n sizeP t"
proof
  let ?w = "workers t rank"
  let ?t' = "t\<lparr>workers := (workers t)(rank := w')\<rparr>"
  let ?a = "rank0 t"
  from inv rank have ok: "worker_ok g n k mail ?a (received t rank) rank ?w"
    by (simp add: system_inv_def)
  have ok': "worker_ok g n k mail ?a (received t rank) rank w'"
    by (rule worker_ok_main_step[OF ok mail st])
  from ok have r: "received t rank \<le> length (sends ?w)" by (simp add: worker_ok_def)
  have fin: "finished_workers sizeP ?t' = finished_workers sizeP t"
    using main_step_barrier[OF st] r by (auto simp: finished_workers_def)
  have lucky: "colors_ub ?a \<le> k \<or> known k (broadcasts ?a) (workers ?t' lucky) \<or>
       promising g n k (pending mail lucky (workers ?t' lucky))"
  proof (cases "lucky = rank")
    case False
    with inv show ?thesis by (simp add: system_inv_def)
  next
    case True
    from inv True have "colors_ub ?a \<le> k \<or> known k (broadcasts ?a) ?w \<or>
        promising g n k (pending mail rank ?w)" by (simp add: system_inv_def)
    moreover from ok have "nodes_ok g n mail rank ?w" "bound_ok k (broadcasts ?a) ?w"
      by (simp_all add: worker_ok_def)
    note promise_main_step[OF this st]
    ultimately show ?thesis using True by auto
  qed
  show "system_inv g n k sizeP mail lucky ?t'"
  proof (rule system_invI)
    fix i assume i: "1 \<le> i" "i < sizeP"
    show "worker_ok g n k mail (rank0 ?t') (received ?t' i) i (workers ?t' i)"
      using system_invD(1)[OF inv i] ok' by simp
  next
    show "worker_done (rank0 ?t') = card (finished_workers sizeP ?t')"
      using system_invD(3)[OF inv] fin by simp
  next
    show "colors_ub (rank0 ?t') \<le> k \<or> known k (broadcasts (rank0 ?t')) (workers ?t' lucky) \<or>
         promising g n k (pending mail lucky (workers ?t' lucky))"
      using lucky by simp
  qed (use system_invD(2,5,6)[OF inv] in simp_all)
  have budget: "broadcast_budget ?t' = broadcast_budget t" by (simp add: broadcast_budget_def)
  from ok have nodes: "nodes_ok g n mail rank ?w" and hears: "hears_ok (broadcasts ?a) ?w"
    by (simp_all add: worker_ok_def)
  have "worker_measure n (broadcast_budget t) (received t rank) w'
        < worker_measure n (broadcast_budget t) (received t rank) ?w"
    using main_measure_decreases[OF nodes st] listener_measure_main_step[OF hears st]
      main_step_sends[OF st] r
    by (auto simp: worker_measure_def)
  then have "sum (\<lambda>i. worker_measure n (broadcast_budget ?t') (received ?t' i) (workers ?t' i))
               {1..<sizeP}
             < sum (\<lambda>i. worker_measure n (broadcast_budget t) (received t i) (workers t i))
                 {1..<sizeP}"
    using rank by (intro sum_decrease_one[of _ rank]) (simp_all add: budget)
  then show "system_measure n sizeP ?t' < system_measure n sizeP t"
    by (simp add: system_measure_def)
qed

lemma worker_listener_step_invariant:
  assumes inv: "system_inv g n k sizeP mail lucky t"
    and rank: "1 \<le> rank" "rank < sizeP"
    and st: "listener_step rank (broadcasts (rank0 t)) (workers t rank) = Some w'"
  shows "system_inv g n k sizeP mail lucky (t\<lparr>workers := (workers t)(rank := w')\<rparr>) \<and>
         system_measure n sizeP (t\<lparr>workers := (workers t)(rank := w')\<rparr>)
           < system_measure n sizeP t"
proof
  let ?w = "workers t rank"
  let ?t' = "t\<lparr>workers := (workers t)(rank := w')\<rparr>"
  let ?a = "rank0 t"
  from inv rank have ok: "worker_ok g n k mail ?a (received t rank) rank ?w"
    by (simp add: system_inv_def)
  have ok': "worker_ok g n k mail ?a (received t rank) rank w'"
    by (rule worker_ok_listener_step[OF ok st])
  note frame = listener_step_frame[OF st]
  have fin: "finished_workers sizeP ?t' = finished_workers sizeP t"
    using frame by (auto simp: finished_workers_def)
  have lucky: "colors_ub ?a \<le> k \<or> known k (broadcasts ?a) (workers ?t' lucky) \<or>
       promising g n k (pending mail lucky (workers ?t' lucky))"
  proof (cases "lucky = rank")
    case False
    with inv show ?thesis by (simp add: system_inv_def)
  next
    case True
    from inv True have "colors_ub ?a \<le> k \<or> known k (broadcasts ?a) ?w \<or>
        promising g n k (pending mail rank ?w)" by (simp add: system_inv_def)
    with known_listener_step[OF _ st] pending_listener_step[OF st, of mail rank] True
    show ?thesis by auto
  qed
  show "system_inv g n k sizeP mail lucky ?t'"
  proof (rule system_invI)
    fix i assume i: "1 \<le> i" "i < sizeP"
    show "worker_ok g n k mail (rank0 ?t') (received ?t' i) i (workers ?t' i)"
      using system_invD(1)[OF inv i] ok' by simp
  next
    show "worker_done (rank0 ?t') = card (finished_workers sizeP ?t')"
      using system_invD(3)[OF inv] fin by simp
  next
    show "colors_ub (rank0 ?t') \<le> k \<or> known k (broadcasts (rank0 ?t')) (workers ?t' lucky) \<or>
         promising g n k (pending mail lucky (workers ?t' lucky))"
      using lucky by simp
  qed (use system_invD(2,5,6)[OF inv] in simp_all)
  have budget: "broadcast_budget ?t' = broadcast_budget t" by (simp add: broadcast_budget_def)
  have "length (broadcasts ?a) \<le> broadcast_budget t" by (simp add: broadcast_budget_def)
  from listener_measure_decreases[OF st this] main_measure_listener_step[OF st, of n] frame
  have "worker_measure n (broadcast_budget t) (received t rank) w'
        < worker_measure n (broadcast_budget t) (received t rank) ?w"
    by (simp add: worker_measure_def)
  then have "sum (\<lambda>i. worker_measure n (broadcast_budget ?t') (received ?t' i) (workers ?t' i))
               {1..<sizeP}
             < sum (\<lambda>i. worker_measure n (broadcast_budget t) (received t i) (workers t i))
                 {1..<sizeP}"
    using rank by (intro sum_decrease_one[of _ rank]) (simp_all add: budget)
  then show "system_measure n sizeP ?t' < system_measure n sizeP t"
    by (simp add: system_measure_def)
qed

lemma aggregator_inv_finish: "aggregator_inv g n a \<Longrightarrow> aggregator_inv g n (finish a)"
  by (auto simp: aggregator_inv_def finish_def)

lemma finish_fields:
  "colors_ub (finish a) = colors_ub a" "worker_done (finish a) = worker_done a"
  "best (finish a) = best a" "broadcasts (finish a) = broadcasts a @ [RETURN]"
  "last (stdout (finish a)) = FinalOptimalSolution (best a)"
  by (simp_all add: finish_def)

lemma rank0_finish_invariant:
  assumes inv: "system_inv g n k sizeP mail lucky t"
    and fin: "\<not> rank0_returned t" "\<not> worker_done (rank0 t) < sizeP - 1"
  shows "system_inv g n k sizeP mail lucky (t\<lparr>rank0 := finish (rank0 t), rank0_returned := True\<rparr>) \<and>
         system_measure n sizeP (t\<lparr>rank0 := finish (rank0 t), rank0_returned := True\<rparr>)
           < system_measure n sizeP t"
proof
  let ?t' = "t\<lparr>rank0 := finish (rank0 t), rank0_returned := True\<rparr>"
  let ?a = "rank0 t"
  show "system_inv g n k sizeP mail lucky ?t'"
  proof (rule system_invI)
    fix i assume i: "1 \<le> i" "i < sizeP"
    have "worker_ok g n k mail (finish ?a) (received t i) i (workers t i)"
      by (rule worker_ok_rank0[OF system_invD(1)[OF inv i]]) (simp_all add: finish_fields)
    then show "worker_ok g n k mail (rank0 ?t') (received ?t' i) i (workers ?t' i)" by simp
  next
    show "aggregator_inv g n (rank0 ?t')"
      using aggregator_inv_finish[OF system_invD(2)[OF inv]] by simp
  next
    have "finished_workers sizeP ?t' = finished_workers sizeP t"
      by (simp add: finished_workers_def)
    then show "worker_done (rank0 ?t') = card (finished_workers sizeP ?t')"
      using system_invD(3)[OF inv] by (simp add: finish_fields)
  next
    from system_invD(4)[OF inv] known_append[of k "broadcasts ?a" "workers t lucky" "[RETURN]"]
    show "colors_ub (rank0 ?t') \<le> k \<or> known k (broadcasts (rank0 ?t')) (workers ?t' lucky) \<or>
         promising g n k (pending mail lucky (workers ?t' lucky))"
      by (auto simp: finish_fields)
  next
    show "sizeP - 1 \<le> worker_done (rank0 ?t')" using fin(2) by (simp add: finish_fields)
  next
    show "last (stdout (rank0 ?t')) = FinalOptimalSolution (best (rank0 ?t'))"
      by (simp add: finish_fields)
  qed
  have budget: "broadcast_budget ?t' = broadcast_budget t"
    using fin(1) by (simp add: broadcast_budget_def finish_fields)
  show "system_measure n sizeP ?t' < system_measure n sizeP t"
    using fin(1) by (simp add: system_measure_def budget)
qed

lemma rank0_receive_invariant:
  assumes inv: "system_inv g n k sizeP mail lucky t"
    and running: "\<not> rank0_returned t"
    and src: "1 \<le> src" "src < sizeP" "received t src < length (sends (workers t src))"
  shows "system_inv g n k sizeP mail lucky
           (t\<lparr>rank0 := on_message (stamped src (sends (workers t src) ! received t src)) (rank0 t),
              received := (received t)(src := received t src + 1)\<rparr>) \<and>
         system_measure n sizeP
           (t\<lparr>rank0 := on_message (stamped src (sends (workers t src) ! received t src)) (rank0 t),
              received := (received t)(src := received t src + 1)\<rparr>)
           < system_measure n sizeP t"
proof
  let ?w = "workers t src"
  let ?r = "received t src"
  let ?m = "sends ?w ! ?r"
  let ?a = "rank0 t"
  let ?a' = "on_message (stamped src ?m) ?a"
  let ?t' = "t\<lparr>rank0 := ?a', received := (received t)(src := ?r + 1)\<rparr>"
  from on_message_broadcasts[of "stamped src ?m" ?a]
  obtain later where bc: "broadcasts ?a' = broadcasts ?a @ later" by blast
  from on_message_ub[of "stamped src ?m" ?a]
  have ub: "colors_ub ?a' \<le> colors_ub ?a"
    and new: "tag ?m = SOLUTION_FROM_WORKER \<longrightarrow> colors_ub ?a' \<le> tot_colors (body ?m)"
    by simp_all
  have oks: "worker_ok g n k mail ?a' (received t i) i (workers t i)"
    if i: "1 \<le> i" "i < sizeP" for i
    by (rule worker_ok_rank0[OF system_invD(1)[OF inv i] bc ub])
  note ok = system_invD(1)[OF inv src(1,2)]
  have mem: "?m \<in> set (sends ?w)" using src(3) by simp
  show "system_inv g n k sizeP mail lucky ?t'"
  proof (rule system_invI)
    fix i assume i: "1 \<le> i" "i < sizeP"
    show "worker_ok g n k mail (rank0 ?t') (received ?t' i) i (workers ?t' i)"
    proof (cases "i = src")
      case False
      with oks[OF i] show ?thesis by simp
    next
      case True
      from worker_ok_received[OF oks[OF src(1,2)] src(3) new] True show ?thesis by simp
    qed
  next
    from ok have "sound_reports g n (sends ?w)" by (simp add: worker_ok_def nodes_ok_def)
    with mem have "tag (stamped src ?m) = SOLUTION_FROM_WORKER \<longrightarrow>
        valid g n (body (stamped src ?m)) \<and> next (body (stamped src ?m)) = n"
      by (simp add: sound_reports_def)
    from on_message_inv[OF system_invD(2)[OF inv] this]
    show "aggregator_inv g n (rank0 ?t')" by simp
  next
    from ok have rl: "return_last ?w" by (simp add: worker_ok_def)
    note last = return_is_last[OF rl src(3)]
    have notin: "src \<notin> finished_workers sizeP t"
      using src(3) by (simp add: finished_workers_def)
    have "finished_workers sizeP ?t' =
        (if tag ?m = RETURN then insert src (finished_workers sizeP t)
         else finished_workers sizeP t)"
      using last src by (auto simp: finished_workers_def)
    then have "card (finished_workers sizeP ?t') =
        card (finished_workers sizeP t) + (if tag ?m = RETURN then 1 else 0)"
      using notin by simp
    then show "worker_done (rank0 ?t') = card (finished_workers sizeP ?t')"
      using system_invD(3)[OF inv] by (simp add: worker_done_on_message)
  next
    from system_invD(4)[OF inv] ub known_append[of k "broadcasts ?a" "workers t lucky" later]
    show "colors_ub (rank0 ?t') \<le> k \<or> known k (broadcasts (rank0 ?t')) (workers ?t' lucky) \<or>
         promising g n k (pending mail lucky (workers ?t' lucky))"
      by (auto simp: bc)
  next
    assume "rank0_returned ?t'"
    with running show "sizeP - 1 \<le> worker_done (rank0 ?t')" by simp
  next
    assume "rank0_returned ?t'"
    with running show "last (stdout (rank0 ?t')) = FinalOptimalSolution (best (rank0 ?t'))"
      by simp
  qed
  have budget: "broadcast_budget ?t' \<le> broadcast_budget t"
    using on_message_budget[of "stamped src ?m" ?a] by (simp add: broadcast_budget_def)
  have le: "worker_measure n (broadcast_budget ?t') (received ?t' i) (workers ?t' i)
      \<le> worker_measure n (broadcast_budget t) (received t i) (workers t i)" for i
  proof (cases "i = src")
    case True
    have "length (sends ?w) - (?r + 1) \<le> length (sends ?w) - ?r" by simp
    with listener_measure_mono[OF budget, of ?w] True show ?thesis
      by (simp add: worker_measure_def)
  next
    case False
    with listener_measure_mono[OF budget, of "workers t i"] show ?thesis
      by (simp add: worker_measure_def)
  qed
  have lt: "worker_measure n (broadcast_budget ?t') (received ?t' src) (workers ?t' src)
      < worker_measure n (broadcast_budget t) (received t src) (workers t src)"
  proof -
    have "length (sends ?w) - (?r + 1) < length (sends ?w) - ?r" using src(3) by simp
    with listener_measure_mono[OF budget, of ?w] show ?thesis
      by (simp add: worker_measure_def)
  qed
  have "sum (\<lambda>i. worker_measure n (broadcast_budget ?t') (received ?t' i) (workers ?t' i))
               {1..<sizeP}
             < sum (\<lambda>i. worker_measure n (broadcast_budget t) (received t i) (workers t i))
                 {1..<sizeP}"
  proof (rule sum_decrease_one[of _ src])
    show "src \<in> {1..<sizeP}" using src(1,2) by simp
  qed (simp, rule lt, rule le)
  then show "system_measure n sizeP ?t' < system_measure n sizeP t"
    using running by (simp add: system_measure_def)
qed

lemma step_invariant:
  assumes inv: "system_inv g n k sizeP mail lucky t" and mail: "mail_ok g n mail"
    and st: "step (spec_solution g n) sizeP mail a t = Some t'"
  shows "system_inv g n k sizeP mail lucky t' \<and> system_measure n sizeP t' < system_measure n sizeP t"
proof (cases a)
  case (RootListener src)
  with st have rs: "root_step sizeP src t = Some t'" by simp
  then have running: "\<not> rank0_returned t" by (auto simp: root_step_def split: if_splits)
  show ?thesis
  proof (cases "worker_done (rank0 t) < sizeP - 1")
    case True
    with rs running have src: "1 \<le> src" "src < sizeP"
      "received t src < length (sends (workers t src))"
      and t': "t' = t\<lparr>rank0 := on_message (stamped src (sends (workers t src) ! received t src))
                                   (rank0 t),
                         received := (received t)(src := received t src + 1)\<rparr>"
      by (auto simp: root_step_def split: if_splits)
    from rank0_receive_invariant[OF inv running src] show ?thesis unfolding t' .
  next
    case False
    with rs running have t': "t' = t\<lparr>rank0 := finish (rank0 t), rank0_returned := True\<rparr>"
      by (auto simp: root_step_def)
    from rank0_finish_invariant[OF inv running False] show ?thesis unfolding t' .
  qed
next
  case (WorkerMain rank)
  with st obtain w' where rank: "1 \<le> rank" "rank < sizeP"
    and ms: "main_step (spec_solution g n) rank mail (workers t rank) = Some w'"
    and t': "t' = t\<lparr>workers := (workers t)(rank := w')\<rparr>"
    by (auto split: if_splits)
  from worker_main_step_invariant[OF inv mail rank ms] show ?thesis unfolding t' .
next
  case (WorkerListener rank)
  with st obtain w' where rank: "1 \<le> rank" "rank < sizeP"
    and ls: "listener_step rank (broadcasts (rank0 t)) (workers t rank) = Some w'"
    and t': "t' = t\<lparr>workers := (workers t)(rank := w')\<rparr>"
    by (auto split: if_splits)
  from worker_listener_step_invariant[OF inv rank ls] show ?thesis unfolding t' .
qed

subsection \<open>The run\<close>

text \<open>
  Along a run: once the listener of rank 0 has returned, every worker is in
  \<^verbatim>\<open>MPI_Barrier\<close> with all its messages received, and \<^verbatim>\<open>best\<close> is optimal; while it
  has not returned some thread can move; and the state at the dispatch is one the run
  starts from.
\<close>

lemma run_schedule_invariant:
  "run_schedule (spec_solution g n) sizeP mail schedule t = Some t' \<Longrightarrow>
   system_inv g n k sizeP mail lucky t \<Longrightarrow> mail_ok g n mail \<Longrightarrow>
   system_inv g n k sizeP mail lucky t' \<and>
   length schedule + system_measure n sizeP t' \<le> system_measure n sizeP t"
proof (induction schedule arbitrary: t)
  case Nil
  then show ?case by simp
next
  case (Cons a schedule)
  from Cons.prems(1) obtain t1 where st: "step (spec_solution g n) sizeP mail a t = Some t1"
    and run: "run_schedule (spec_solution g n) sizeP mail schedule t1 = Some t'"
    by (auto split: option.splits)
  from step_invariant[OF Cons.prems(2,3) st]
  have inv1: "system_inv g n k sizeP mail lucky t1"
    and less: "system_measure n sizeP t1 < system_measure n sizeP t" by simp_all
  from Cons.IH[OF run inv1 Cons.prems(3)] less show ?case by simp
qed

lemma all_finished:
  assumes inv: "system_inv g n k sizeP mail lucky t" and ret: "rank0_returned t"
    and rank: "1 \<le> rank" "rank < sizeP"
  shows "main_at (workers t rank) = AtBarrier \<and>
         received t rank = length (sends (workers t rank))"
proof -
  from system_invD(3,5)[OF inv] ret
  have "card {1..<sizeP} \<le> card (finished_workers sizeP t)" by simp
  with finished_subset[of sizeP t] have "finished_workers sizeP t = {1..<sizeP}"
    by (intro card_seteq) simp_all
  with rank have "rank \<in> finished_workers sizeP t" by simp
  then show ?thesis by (simp add: finished_workers_def)
qed

lemma returned_optimal:
  assumes wf: "well_formed_graph n g" and k: "k = chromatic_number g n" and kn: "k \<le> n"
    and inv: "system_inv g n k sizeP mail lucky t" and ret: "rank0_returned t"
    and lucky: "1 \<le> lucky" "lucky < sizeP"
  shows "optimal g n (best (rank0 t)) \<and>
         last (stdout (rank0 t)) = FinalOptimalSolution (best (rank0 t))"
proof -
  let ?a = "rank0 t" and ?w = "workers t lucky"
  note fin = all_finished[OF inv ret lucky]
  note ok = system_invD(1)[OF inv lucky]
  note agg = system_invD(2)[OF inv]
  have "colors_ub ?a \<le> k"
  proof -
    from system_invD(4)[OF inv] fin
    consider "colors_ub ?a \<le> k" | "reported k (sends ?w)" | "heard k (set (broadcasts ?a))"
      by (auto simp: known_def pending_def promising_def)
    then show ?thesis
    proof cases
      case 1 then show ?thesis .
    next
      case 2
      then obtain m where m: "m \<in> set (sends ?w)" "tag m = SOLUTION_FROM_WORKER"
        "tot_colors (body m) \<le> k" by (auto simp: reported_def list_ex_iff)
      from ok fin m(1,2) have "colors_ub ?a \<le> tot_colors (body m)"
        by (simp add: worker_ok_def)
      with m(3) show ?thesis by simp
    next
      case 3
      then obtain v where "v \<in> set (broadcasts ?a)" "v \<noteq> RETURN" "v \<le> k"
        unfolding heard_def by blast
      with agg show ?thesis by (auto simp: aggregator_inv_def)
    qed
  qed
  moreover with agg kn have "incumbent g n (colors_ub ?a) (best ?a)"
    by (auto simp: aggregator_inv_def)
  ultimately have "optimal g n (best ?a)"
    using incumbent_optimal[OF wf, of "colors_ub ?a" "best ?a"] k by simp
  with system_invD(6)[OF inv ret] show ?thesis by simp
qed

lemma some_step_enabled:
  assumes inv: "system_inv g n k sizeP mail lucky t" and cov: "mail_covers sizeP mail"
    and running: "\<not> rank0_returned t"
  shows "\<exists>a t'. step cls sizeP mail a t = Some t'"
proof (cases "worker_done (rank0 t) < sizeP - 1")
  case False
  with running have "step cls sizeP mail (RootListener 0) t
      = Some (t\<lparr>rank0 := finish (rank0 t), rank0_returned := True\<rparr>)"
    by (simp add: root_step_def)
  then show ?thesis by blast
next
  case True
  with system_invD(3)[OF inv] have "card (finished_workers sizeP t) < card {1..<sizeP}"
    by simp
  with finished_subset[of sizeP t] have "finished_workers sizeP t \<noteq> {1..<sizeP}" by auto
  with finished_subset[of sizeP t] have "\<exists>rank\<in>{1..<sizeP}. rank \<notin> finished_workers sizeP t"
    by blast
  then obtain rank where rank: "1 \<le> rank" "rank < sizeP"
    and nf: "rank \<notin> finished_workers sizeP t" by auto
  show ?thesis
  proof (cases "main_at (workers t rank) = AtBarrier")
    case False
    from cov rank have "find (\<lambda>e. peer e = rank) mail \<noteq> None" by (simp add: mail_covers_def)
    from main_step_enabled[OF False this, of cls]
    obtain w' where "main_step cls rank mail (workers t rank) = Some w'" by blast
    with rank have "step cls sizeP mail (WorkerMain rank) t
        = Some (t\<lparr>workers := (workers t)(rank := w')\<rparr>)" by simp
    then show ?thesis by blast
  next
    case barrier: True
    with nf rank have "received t rank \<noteq> length (sends (workers t rank))"
      by (simp add: finished_workers_def)
    moreover from system_invD(1)[OF inv rank]
    have "received t rank \<le> length (sends (workers t rank))" by (simp add: worker_ok_def)
    ultimately have "received t rank < length (sends (workers t rank))" by simp
    with rank True running have "\<exists>t'. step cls sizeP mail (RootListener rank) t = Some t'"
      by (simp add: root_step_def)
    then show ?thesis by blast
  qed
qed

lemma run_completes:
  assumes mail: "mail_ok g n mail" and cov: "mail_covers sizeP mail"
  shows "system_inv g n k sizeP mail lucky t \<Longrightarrow>
    \<exists>schedule t'. run_schedule (spec_solution g n) sizeP mail schedule t = Some t' \<and>
                  rank0_returned t'"
proof (induction "system_measure n sizeP t" arbitrary: t rule: less_induct)
  case less
  show ?case
  proof (cases "rank0_returned t")
    case True
    then have "run_schedule (spec_solution g n) sizeP mail [] t = Some t \<and> rank0_returned t"
      by simp
    then show ?thesis by blast
  next
    case False
    from some_step_enabled[OF less.prems cov False]
    obtain a t1 where st: "step (spec_solution g n) sizeP mail a t = Some t1" by blast
    from step_invariant[OF less.prems mail st]
    have inv1: "system_inv g n k sizeP mail lucky t1"
      and lt: "system_measure n sizeP t1 < system_measure n sizeP t" by simp_all
    from less.hyps[OF lt inv1] obtain schedule t'
      where "run_schedule (spec_solution g n) sizeP mail schedule t1 = Some t'"
        "rank0_returned t'" by blast
    with st have "run_schedule (spec_solution g n) sizeP mail (a # schedule) t = Some t' \<and>
        rank0_returned t'" by simp
    then show ?thesis by blast
  qed
qed

lemma worker_ok_start:
  assumes mail: "mail_ok g n mail" and kn: "k \<le> n"
  shows "worker_ok g n k mail a 0 rank (worker_threads_start (spec_solution g n))"
proof -
  let ?w = "worker_threads_start (spec_solution g n)"
  have "\<forall>u\<in>set (pending mail rank ?w). valid g n u"
  proof (cases "find (\<lambda>e. peer e = rank) mail")
    case None
    then show ?thesis by (simp add: pending_def worker_threads_start_def)
  next
    case (Some init)
    from find_in_set[OF Some] mail have "tag init = INITIAL_NODE \<longrightarrow> valid g n (body init)"
      by (simp add: mail_ok_def)
    with Some show ?thesis by (simp add: pending_def worker_threads_start_def)
  qed
  then have "nodes_ok g n mail rank ?w"
    by (simp add: nodes_ok_def at_ok_def sound_reports_def worker_threads_start_def)
  moreover have "hears_ok (broadcasts a) ?w"
    by (simp add: hears_ok_def worker_threads_start_def)
  moreover have "bound_ok k (broadcasts a) ?w"
    using kn by (simp add: bound_ok_def worker_threads_start_def spec_fields)
  moreover have "return_last ?w" by (simp add: return_last_def worker_threads_start_def)
  ultimately show ?thesis by (simp add: worker_ok_def worker_threads_start_def)
qed

lemma system_inv_start:
  assumes rdy: "ready g n k sizeP s1" and kn: "k \<le> n" and started: "sends s1 = []"
  shows "\<exists>lucky. 1 \<le> lucky \<and> lucky < sizeP \<and>
     system_inv g n k sizeP (sends (dispatch (spec_solution g n) sizeP s1)) lucky
       (system_start (spec_solution g n) (colors_ub (dispatch (spec_solution g n) sizeP s1))) \<and>
     mail_ok g n (sends (dispatch (spec_solution g n) sizeP s1)) \<and>
     mail_covers sizeP (sends (dispatch (spec_solution g n) sizeP s1))"
proof -
  let ?cls = "spec_solution g n"
  let ?q = "initial_q s1"
  let ?idle = "dispatch_idle (default_solution ?cls) (1 + length ?q) sizeP"
  let ?mail = "dispatch_nodes ?q 1 @ ?idle"
  let ?t = "system_start ?cls (n + 1)"
  have sends: "sends (dispatch ?cls sizeP s1) = ?mail"
    using started by (simp add: dispatch_def)
  have ub: "colors_ub (dispatch ?cls sizeP s1) = n + 1"
    using rdy by (simp add: dispatch_def ready_def)
  from rdy have valid: "\<forall>u\<in>set ?q. valid g n u" and len: "length ?q \<le> sizeP - 1"
    by (simp_all add: ready_def)
  have mail: "mail_ok g n ?mail" by (rule dispatch_mail_ok[OF valid])
  have cov: "mail_covers sizeP ?mail" by (rule dispatch_covers[OF len])
  from rdy obtain u c where u: "u \<in> set ?q" and c: "extends g n u c" "card (set c) \<le> k"
    by (auto simp: ready_def promising_def)
  from find_dispatch_nodes[OF u, of 1 ?idle] obtain lucky where lucky: "1 \<le> lucky"
    "lucky < 1 + length ?q"
    and f: "find (\<lambda>e. peer e = lucky) ?mail = Some \<lparr>body = u, peer = lucky, tag = INITIAL_NODE\<rparr>"
    by blast
  from rdy have "?q \<noteq> []" by (simp add: ready_def)
  then have "0 < length ?q" by simp
  with lucky(2) len have lt: "lucky < sizeP" by linarith
  have prom: "promising g n k (pending ?mail lucky (workers ?t lucky))"
    using f c by (auto simp: pending_def system_start_def worker_threads_start_def promising_def)
  have "system_inv g n k sizeP ?mail lucky ?t"
  proof (rule system_invI)
    fix rank
    show "worker_ok g n k ?mail (rank0 ?t) (received ?t rank) rank (workers ?t rank)"
      using worker_ok_start[OF mail kn, of "rank0 ?t" rank] by (simp add: system_start_def)
  next
    show "aggregator_inv g n (rank0 ?t)"
      by (simp add: system_start_def aggregator_inv_def aggregator_start_def)
  next
    have "finished_workers sizeP ?t = {}"
      by (simp add: finished_workers_def system_start_def worker_threads_start_def)
    then show "worker_done (rank0 ?t) = card (finished_workers sizeP ?t)"
      by (simp add: system_start_def aggregator_start_def)
  next
    show "colors_ub (rank0 ?t) \<le> k \<or> known k (broadcasts (rank0 ?t)) (workers ?t lucky) \<or>
         promising g n k (pending ?mail lucky (workers ?t lucky))"
      using prom by simp
  qed (simp_all add: system_start_def)
  with lucky(1) lt mail cov show ?thesis unfolding sends ub by blast
qed

lemma dispatched_run:
  assumes wf: "well_formed_graph n g"
    and rdy: "ready g n k sizeP s1" and k: "k = chromatic_number g n" and kn: "k \<le> n"
    and started: "sends s1 = []"
    and s: "s = dispatch (spec_solution g n) sizeP s1"
  shows "\<exists>bound. \<forall>schedule t.
     run_schedule (spec_solution g n) sizeP (sends s) schedule
       (system_start (spec_solution g n) (colors_ub s)) = Some t \<longrightarrow>
     length schedule \<le> bound \<and>
     (\<exists>later t'. run_schedule (spec_solution g n) sizeP (sends s) later t = Some t' \<and>
                 rank0_returned t') \<and>
     ((\<forall>a. step (spec_solution g n) sizeP (sends s) a t = None) \<longrightarrow> rank0_returned t) \<and>
     (rank0_returned t \<longrightarrow>
        (\<forall>rank. 1 \<le> rank \<and> rank < sizeP \<longrightarrow> main_at (workers t rank) = AtBarrier) \<and>
        optimal g n (best (rank0 t)) \<and>
        last (stdout (rank0 t)) = FinalOptimalSolution (best (rank0 t)))"
proof -
  let ?cls = "spec_solution g n"
  let ?start = "system_start ?cls (colors_ub s)"
  from system_inv_start[OF rdy kn started] obtain lucky where lucky: "1 \<le> lucky" "lucky < sizeP"
    and inv0: "system_inv g n k sizeP (sends s) lucky ?start"
    and mail: "mail_ok g n (sends s)" and cov: "mail_covers sizeP (sends s)"
    unfolding s by blast
  have "length schedule \<le> system_measure n sizeP ?start \<and>
     (\<exists>later t'. run_schedule ?cls sizeP (sends s) later t = Some t' \<and> rank0_returned t') \<and>
     ((\<forall>a. step ?cls sizeP (sends s) a t = None) \<longrightarrow> rank0_returned t) \<and>
     (rank0_returned t \<longrightarrow>
        (\<forall>rank. 1 \<le> rank \<and> rank < sizeP \<longrightarrow> main_at (workers t rank) = AtBarrier) \<and>
        optimal g n (best (rank0 t)) \<and>
        last (stdout (rank0 t)) = FinalOptimalSolution (best (rank0 t)))"
    if run: "run_schedule ?cls sizeP (sends s) schedule ?start = Some t" for schedule t
  proof -
    from run_schedule_invariant[OF run inv0 mail]
    have inv: "system_inv g n k sizeP (sends s) lucky t"
      and len: "length schedule + system_measure n sizeP t \<le> system_measure n sizeP ?start"
      by simp_all
    have stuck: "rank0_returned t" if "\<forall>a. step ?cls sizeP (sends s) a t = None"
    proof (rule ccontr)
      assume "\<not> rank0_returned t"
      from some_step_enabled[OF inv cov this, of ?cls] that show False by simp
    qed
    have barrier: "\<forall>rank. 1 \<le> rank \<and> rank < sizeP \<longrightarrow> main_at (workers t rank) = AtBarrier"
      if "rank0_returned t"
      using all_finished[OF inv that] by blast
    from len run_completes[OF mail cov inv] stuck barrier
      returned_optimal[OF wf k kn inv _ lucky]
    show ?thesis by auto
  qed
  then show ?thesis by blast
qed

text \<open>
  Claim C1: on a graph (a symmetric, irreflexive relation on \<open>n\<close> vertices) and with at
  least one worker, rank 0 ends its seed phase. Either it aborts, and the \<^verbatim>\<open>best_so_far\<close> it
  has printed as the optimal solution is a proper colouring in \<open>\<chi>(G)\<close> colours. Or it
  dispatches, and then, in whatever order the threads of the processes move, one access
  at a time: no run has more than \<open>bound\<close> steps; every run can be continued until the
  listener of rank 0 has returned, and where no thread can move it has returned; and once
  it has returned, every worker is in \<^verbatim>\<open>MPI_Barrier\<close> and the \<^verbatim>\<open>best\<close> it printed last is a
  proper colouring in \<open>\<chi>(G)\<close> colours. The class \<^verbatim>\<open>solution\<close> is the one modelled from
  the spec, and MPI delivers as described at \<open>main_step\<close>, \<open>listener_step\<close> and
  \<open>root_step\<close>.
\<close>

theorem reported_coloring_is_optimal:
  "well_formed_graph n g \<Longrightarrow> 2 \<le> sizeP \<Longrightarrow>
   \<exists>r. rank0_main (spec_solution g n) sizeP = Some r \<and>
       (case r of
          Aborted code s \<Rightarrow>
            optimal g n (best_so_far s) \<and>
            stdout s \<noteq> [] \<and> OptimalSolution (best_so_far s) \<in> set (stdout s)
        | Dispatched s \<Rightarrow>
            (\<exists>bound. \<forall>schedule t.
               run_schedule (spec_solution g n) sizeP (sends s) schedule
                 (system_start (spec_solution g n) (colors_ub s)) = Some t \<longrightarrow>
               length schedule \<le> bound \<and>
               (\<exists>later t'. run_schedule (spec_solution g n) sizeP (sends s) later t = Some t' \<and>
                           rank0_returned t') \<and>
               ((\<forall>a. step (spec_solution g n) sizeP (sends s) a t = None) \<longrightarrow>
                  rank0_returned t) \<and>
               (rank0_returned t \<longrightarrow>
                  (\<forall>rank. 1 \<le> rank \<and> rank < sizeP \<longrightarrow>
                     main_at (workers t rank) = AtBarrier) \<and>
                  optimal g n (best (rank0 t)) \<and>
                  last (stdout (rank0 t)) = FinalOptimalSolution (best (rank0 t)))))"
proof -
  assume wf: "well_formed_graph n g" and two: "2 \<le> sizeP"
  let ?cls = "spec_solution g n"
  define k where "k = chromatic_number g n"
  from wf have irr: "irreflexive n g" by (simp add: well_formed_graph_def)
  from chromatic_attained[OF irr] obtain c where c: "proper_coloring g n c" "card (set c) = k"
    unfolding k_def by blast
  have kn: "k \<le> n" using c by (metis card_length proper_coloring_iff)
  have start: "initial_q (seed_start ?cls) = [empty_solution n]" "colors_ub (seed_start ?cls) = n + 1"
    "sends (seed_start ?cls) = []"
    by (simp_all add: seed_start_def spec_solution_def)
  have "promising g n k [empty_solution n]"
    unfolding promising_def using extends_empty[OF c(1)] c(2) by auto
  with start two have inv0: "seed_inv g n k sizeP (seed_start ?cls)"
    by (simp add: seed_inv_def valid_empty level_def)
  have "\<forall>u\<in>set (initial_q (seed_start ?cls)). next u \<le> n"
    by (simp add: start empty_solution_def)
  from seed_loop_halts[OF this] obtain s1 where s1: "seed_loop ?cls sizeP (seed_start ?cls) = Some s1"
    by blast
  from seed_loop_invariant[OF s1 refl kn inv0]
  have empty: "initial_q s1 = [] \<Longrightarrow>
      incumbent g n (colors_ub s1) (best_so_far s1) \<and> colors_ub s1 \<le> k"
    and full: "initial_q s1 \<noteq> [] \<Longrightarrow> ready g n k sizeP s1" by blast+
  from seed_loop_sends[OF s1] start have nosend: "sends s1 = []" by simp
  have main: "rank0_main ?cls sizeP = Some (after_seed ?cls sizeP s1)"
    by (simp add: rank0_main_def s1)
  show ?thesis
  proof (cases "initial_q s1 = []")
    case True
    from empty[OF True] have "optimal g n (best_so_far s1)"
      using incumbent_optimal[OF wf, of "colors_ub s1" "best_so_far s1"] by (simp add: k_def)
    with True main show ?thesis by (simp add: after_seed_def)
  next
    case False
    note dispatched_run[OF wf full[OF False] k_def kn nosend refl]
    with False main show ?thesis by (simp add: after_seed_def)
  qed
qed

text \<open>
  The theorem at the run on four isolated vertices: the bound of worker 2 goes from 1 up
  to 2 on the way, and rank 0 prints the colouring in one colour.
\<close>

theorem reported_coloring_is_optimal_witness:
  "well_formed_graph 4 (empty_matrix 4) \<and> (2 :: nat) \<le> 3 \<and>
   rank0_main (spec_solution (empty_matrix 4) 4) 3 = Some (Dispatched run_dispatched) \<and>
   map_option (\<lambda>t. colors_ub (workers t 2))
     (run_schedule (spec_solution (empty_matrix 4) 4) 3 (sends run_dispatched)
        (take 24 race_schedule)
        (system_start (spec_solution (empty_matrix 4) 4) (colors_ub run_dispatched))) = Some 1 \<and>
   map_option (\<lambda>t. colors_ub (workers t 2))
     (run_schedule (spec_solution (empty_matrix 4) 4) 3 (sends run_dispatched)
        (take 25 race_schedule)
        (system_start (spec_solution (empty_matrix 4) 4) (colors_ub run_dispatched))) = Some 2 \<and>
   (\<exists>t. run_schedule (spec_solution (empty_matrix 4) 4) 3 (sends run_dispatched) race_schedule
          (system_start (spec_solution (empty_matrix 4) 4) (colors_ub run_dispatched)) = Some t \<and>
        rank0_returned t \<and>
        best (rank0 t) = \<lparr>color = [1, 1, 1, 1], tot_colors = 1, next = 4\<rparr> \<and>
        main_at (workers t 1) = AtBarrier \<and> main_at (workers t 2) = AtBarrier \<and>
        optimal (empty_matrix 4) 4 (best (rank0 t)) \<and>
        last (stdout (rank0 t)) = FinalOptimalSolution (best (rank0 t)))"
proof -
  let ?cls = "spec_solution (empty_matrix 4) 4"
  let ?start = "system_start ?cls (colors_ub run_dispatched)"
  have wf: "well_formed_graph 4 (empty_matrix 4)" by code_simp
  have two: "(2 :: nat) \<le> 3" by simp
  have main: "rank0_main ?cls 3 = Some (Dispatched run_dispatched)" by code_simp
  have before: "map_option (\<lambda>t. colors_ub (workers t 2))
     (run_schedule ?cls 3 (sends run_dispatched) (take 24 race_schedule) ?start) = Some 1"
    by code_simp
  have after: "map_option (\<lambda>t. colors_ub (workers t 2))
     (run_schedule ?cls 3 (sends run_dispatched) (take 25 race_schedule) ?start) = Some 2"
    by code_simp
  have "map_option (\<lambda>t. (rank0_returned t, best (rank0 t)))
     (run_schedule ?cls 3 (sends run_dispatched) race_schedule ?start)
       = Some (True, \<lparr>color = [1, 1, 1, 1], tot_colors = 1, next = 4\<rparr>)"
    by code_simp
  then obtain t where run: "run_schedule ?cls 3 (sends run_dispatched) race_schedule ?start = Some t"
    and ret: "rank0_returned t"
    and best: "best (rank0 t) = \<lparr>color = [1, 1, 1, 1], tot_colors = 1, next = 4\<rparr>"
    by auto
  from reported_coloring_is_optimal[OF wf two] main
  obtain bound where all: "\<forall>schedule t.
      run_schedule ?cls 3 (sends run_dispatched) schedule ?start = Some t \<longrightarrow>
      length schedule \<le> bound \<and>
      (\<exists>later t'. run_schedule ?cls 3 (sends run_dispatched) later t = Some t' \<and>
                  rank0_returned t') \<and>
      ((\<forall>a. step ?cls 3 (sends run_dispatched) a t = None) \<longrightarrow> rank0_returned t) \<and>
      (rank0_returned t \<longrightarrow>
         (\<forall>rank. 1 \<le> rank \<and> rank < 3 \<longrightarrow> main_at (workers t rank) = AtBarrier) \<and>
         optimal (empty_matrix 4) 4 (best (rank0 t)) \<and>
         last (stdout (rank0 t)) = FinalOptimalSolution (best (rank0 t)))"
    by auto
  from all run ret
  have fin: "(\<forall>rank. 1 \<le> rank \<and> rank < 3 \<longrightarrow> main_at (workers t rank) = AtBarrier) \<and>
      optimal (empty_matrix 4) 4 (best (rank0 t)) \<and>
      last (stdout (rank0 t)) = FinalOptimalSolution (best (rank0 t))"
    by blast
  then have "main_at (workers t 1) = AtBarrier" "main_at (workers t 2) = AtBarrier" by simp_all
  with wf two main before after run ret best fin show ?thesis by blast
qed

end
